theory Spec2Isabelle
  imports Main "HOL-Library.Word" "HOL-Library.List_Lexorder" "HOL-Library.AList"
begin

section \<open>Values of the JavaScript runtime\<close>

text \<open>
  The archiver (\<^verbatim>\<open>archiver.ts\<close>) is a script for the Bun runtime.  Its values are
  modelled as follows.
  \<^item> A \<^verbatim>\<open>Uint8Array\<close> is a list of bytes; its \<^verbatim>\<open>length\<close> is the length of the list.
  \<^item> A JavaScript string is the list of its UTF-16 code units.  The lexicographic
    order on such lists is the order used by \<^verbatim>\<open>Array.prototype.sort\<close> without a
    comparison function.
  \<^item> A plain object used as a dictionary is the list of its properties in insertion
    order, without duplicate keys.
  \<^item> A number that holds a length or an offset is a natural number.
  \<^item> A number that \<^verbatim>\<open>parseInt\<close> returns is \<^verbatim>\<open>NaN\<close>, an infinity, or a double with an
    integral value, given by that value.
\<close>

type_synonym byte = "8 word"
type_synonym bytes = "byte list"
type_synonym jsstring = "16 word list"
type_synonym 'a jsobject = "(jsstring \<times> 'a) list"

definition js :: "string \<Rightarrow> jsstring" where
  "js s = map of_char s"

datatype json =
    JNull
  | JBool bool
  | JNum int int
  | JStr jsstring
  | JArr "json list"
  | JObj "(jsstring \<times> json) list"

datatype number = NaN | Finite int | PosInfinity | NegInfinity

datatype exn =
    RangeError
  | SyntaxError
  | TypeError
  | ZlibError
  | ENOENT
  | ENOTDIR
  | EISDIR
  | EEXIST

text \<open>
  Every failure of the script ends the process with exit code 1: either one of its own
  checks, followed by \<^verbatim>\<open>process.exit(1)\<close>, or an exception that the enclosing
  \<^verbatim>\<open>catch\<close> reports before it exits.
\<close>

datatype error =
    NotADirectory
  | NoFilesFound
  | NotAFile
  | InvalidArchiveFormat
  | NoFilesInArchive
  | Caught exn

text \<open>
  The functions of the runtime that the script calls and that are not part of it: the
  UTF-8 encoder and decoder, the JSON serialiser and parser, the gzip compressor and
  decompressor of \<^verbatim>\<open>zlib\<close>, and the clock.  \<open>maxByteLength\<close> is the largest length
  with which the runtime creates a typed array; a longer one is refused with a
  \<^verbatim>\<open>RangeError\<close>.  In JavaScriptCore, the engine of Bun, it is \<open>2\<^sup>3\<^sup>2\<close>.
\<close>

record platform =
  TextEncoder_encode :: "jsstring \<Rightarrow> bytes"
  TextDecoder_decode :: "bytes \<Rightarrow> jsstring"
  JSON_stringify :: "json \<Rightarrow> jsstring"
  JSON_parse :: "jsstring \<Rightarrow> exn + json"
  gzipSync :: "bytes \<Rightarrow> number \<Rightarrow> exn + bytes"
  gunzipSync :: "bytes \<Rightarrow> exn + bytes"
  Date_toISOString :: jsstring
  maxByteLength :: nat

subsection \<open>Objects as dictionaries\<close>

definition digit_value :: "16 word \<Rightarrow> nat" where
  "digit_value c = unat c - 48"

definition is_digit :: "16 word \<Rightarrow> bool" where
  "is_digit c = (48 \<le> unat c \<and> unat c \<le> 57)"

definition decimal_value :: "jsstring \<Rightarrow> nat" where
  "decimal_value s = foldl (\<lambda>a c. 10 * a + digit_value c) 0 s"

text \<open>
  An array index is a canonical numeric string below \<open>2\<^sup>3\<^sup>2 - 1\<close>.  The keys of an
  object are enumerated with the array indices first, in ascending numeric order, and
  the other keys after them in insertion order.
\<close>

definition is_array_index :: "jsstring \<Rightarrow> bool" where
  "is_array_index k =
     (k \<noteq> [] \<and> list_all is_digit k \<and> (hd k \<noteq> 48 \<or> length k = 1) \<and>
      length k \<le> 10 \<and> decimal_value k < 2 ^ 32 - 1)"

definition Object_keys :: "'a jsobject \<Rightarrow> jsstring list" where
  "Object_keys obj =
     sort_key decimal_value (filter is_array_index (map fst obj)) @
     filter (\<lambda>k. \<not> is_array_index k) (map fst obj)"

definition obj_get :: "bytes jsobject \<Rightarrow> jsstring \<Rightarrow> bytes" where
  "obj_get obj k = (case map_of obj k of Some v \<Rightarrow> v | None \<Rightarrow> [])"

definition Object_values :: "bytes jsobject \<Rightarrow> bytes list" where
  "Object_values obj = map (obj_get obj) (Object_keys obj)"

definition obj_set :: "'a jsobject \<Rightarrow> jsstring \<Rightarrow> 'a \<Rightarrow> 'a jsobject" where
  "obj_set obj k v = AList.update k v obj"

definition Object_assign :: "bytes jsobject \<Rightarrow> bytes jsobject \<Rightarrow> bytes jsobject" where
  "Object_assign target source =
     foldl (\<lambda>t k. obj_set t k (obj_get source k)) target (Object_keys source)"

subsection \<open>Typed arrays and data views\<close>

text \<open>
  \<^verbatim>\<open>subarray(begin, end)\<close> clamps both positions to the length of the array and never
  fails.  The script only calls it with \<open>begin \<le> end\<close>.
\<close>

definition subarray :: "bytes \<Rightarrow> nat \<Rightarrow> nat \<Rightarrow> bytes" where
  "subarray a begin end = take (end - begin) (drop begin a)"

text \<open>
  \<^verbatim>\<open>new DataView(buffer, byteOffset, byteLength)\<close> throws a \<^verbatim>\<open>RangeError\<close> when the
  requested window does not lie inside the buffer.  The \<^verbatim>\<open>ArrayBuffer\<close> behind the
  decompressed data is taken to hold exactly the decompressed bytes.
\<close>

definition DataView :: "bytes \<Rightarrow> nat \<Rightarrow> nat \<Rightarrow> exn + bytes" where
  "DataView buffer byteOffset byteLength =
     (if byteOffset + byteLength \<le> length buffer
      then Inr (take byteLength (drop byteOffset buffer))
      else Inl RangeError)"

definition le_value :: "bytes \<Rightarrow> nat" where
  "le_value bs = foldr (\<lambda>b acc. unat b + 256 * acc) bs 0"

text \<open>
  \<^verbatim>\<open>getUint32(pos, true)\<close> reads four bytes, least significant first.  Both views of
  the script are long enough for every position it reads.
\<close>

definition getUint32 :: "bytes \<Rightarrow> nat \<Rightarrow> nat" where
  "getUint32 view pos = le_value (take 4 (drop pos view))"

text \<open>
  \<^verbatim>\<open>setUint32(pos, value, true)\<close> converts the value with \<^verbatim>\<open>ToUint32\<close>, that is modulo
  \<open>2\<^sup>3\<^sup>2\<close>, and stores four bytes, least significant first.  \<open>Uint32_bytes\<close> is the
  content of a fresh four-byte buffer after that call at position 0.
\<close>

definition ToUint32 :: "nat \<Rightarrow> nat" where
  "ToUint32 n = n mod 2 ^ 32"

definition Uint32_bytes :: "nat \<Rightarrow> bytes" where
  "Uint32_bytes n =
     (let v = ToUint32 n
      in [of_nat (v mod 256), of_nat (v div 256 mod 256),
          of_nat (v div 65536 mod 256), of_nat (v div 16777216 mod 256)])"

section \<open>Paths and the file system\<close>

subsection \<open>The POSIX flavour of the path module\<close>

definition CHAR_FORWARD_SLASH :: "16 word" where
  "CHAR_FORWARD_SLASH = 47"

definition CHAR_DOT :: "16 word" where
  "CHAR_DOT = 46"

fun split_on :: "16 word \<Rightarrow> jsstring \<Rightarrow> jsstring list" where
  "split_on c [] = [[]]"
| "split_on c (x # xs) =
     (if x = c then [] # split_on c xs
      else (case split_on c xs of s # ss \<Rightarrow> (x # s) # ss | [] \<Rightarrow> [[x]]))"

fun join_with :: "16 word \<Rightarrow> jsstring list \<Rightarrow> jsstring" where
  "join_with c [] = []"
| "join_with c [s] = s"
| "join_with c (s # ss) = s @ c # join_with c ss"

text \<open>
  \<open>normalizeString\<close> on the segments of a path: empty segments and \<^verbatim>\<open>.\<close> are
  dropped, \<^verbatim>\<open>..\<close> removes the segment before it, and where there is none it is
  kept if the path may climb above its start and dropped otherwise.
\<close>

definition normalize_step :: "bool \<Rightarrow> jsstring list \<Rightarrow> jsstring \<Rightarrow> jsstring list" where
  "normalize_step allowAboveRoot res seg =
     (if seg = [] \<or> seg = [CHAR_DOT] then res
      else if seg = [CHAR_DOT, CHAR_DOT] then
        (if res \<noteq> [] \<and> last res \<noteq> [CHAR_DOT, CHAR_DOT] then butlast res
         else if allowAboveRoot then res @ [seg]
         else res)
      else res @ [seg])"

definition normalizeString :: "jsstring list \<Rightarrow> bool \<Rightarrow> jsstring list" where
  "normalizeString segs allowAboveRoot = foldl (normalize_step allowAboveRoot) [] segs"

text \<open>Segments that name an entry of a directory.\<close>

definition properSegments :: "jsstring list \<Rightarrow> bool" where
  "properSegments segs =
     (\<forall>s \<in> set segs. s \<noteq> [] \<and> s \<noteq> [CHAR_DOT] \<and> s \<noteq> [CHAR_DOT, CHAR_DOT])"

definition isAbsolute :: "jsstring \<Rightarrow> bool" where
  "isAbsolute path = (path \<noteq> [] \<and> hd path = CHAR_FORWARD_SLASH)"

definition trailingSeparator :: "jsstring \<Rightarrow> bool" where
  "trailingSeparator path = (path \<noteq> [] \<and> last path = CHAR_FORWARD_SLASH)"

definition normalize :: "jsstring \<Rightarrow> jsstring" where
  "normalize path =
     (if path = [] then [CHAR_DOT]
      else
        let p = join_with CHAR_FORWARD_SLASH
                  (normalizeString (split_on CHAR_FORWARD_SLASH path) (\<not> isAbsolute path))
        in if p = [] then
             (if isAbsolute path then [CHAR_FORWARD_SLASH]
              else if trailingSeparator path then [CHAR_DOT, CHAR_FORWARD_SLASH]
              else [CHAR_DOT])
           else (if isAbsolute path then [CHAR_FORWARD_SLASH] else []) @ p @
                (if trailingSeparator path then [CHAR_FORWARD_SLASH] else []))"

definition join :: "jsstring list \<Rightarrow> jsstring" where
  "join args =
     (let parts = filter (\<lambda>arg. arg \<noteq> []) args
      in if parts = [] then [CHAR_DOT]
         else normalize (join_with CHAR_FORWARD_SLASH parts))"

text \<open>
  \<open>dirname\<close>: trailing separators are skipped, then the path is cut at the last
  separator that is not its first character.
\<close>

definition dirname :: "jsstring \<Rightarrow> jsstring" where
  "dirname path =
     (if path = [] then [CHAR_DOT]
      else
        let after = dropWhile (\<lambda>c. c \<noteq> CHAR_FORWARD_SLASH)
                      (dropWhile (\<lambda>c. c = CHAR_FORWARD_SLASH) (rev (tl path)));
            end = length after
        in if after = [] then (if isAbsolute path then [CHAR_FORWARD_SLASH] else [CHAR_DOT])
           else if isAbsolute path \<and> end = 1 then [CHAR_FORWARD_SLASH, CHAR_FORWARD_SLASH]
           else take end path)"

definition endsWith :: "jsstring \<Rightarrow> jsstring \<Rightarrow> bool" where
  "endsWith s suffix =
     (length suffix \<le> length s \<and> drop (length s - length suffix) s = suffix)"

definition startsWith :: "jsstring \<Rightarrow> jsstring \<Rightarrow> bool" where
  "startsWith s prefix = (take (length prefix) s = prefix)"

text \<open>
  \<open>basename\<close>: the last segment of the path, trailing separators apart, without
  the suffix when one is given and the segment ends with it and is longer.  The two
  irregular results of the library are kept: a segment that is a proper end of the
  suffix comes back with the trailing separators of the path, and a path of
  separators only comes back whole.
\<close>

definition basename :: "jsstring \<Rightarrow> jsstring option \<Rightarrow> jsstring" where
  "basename path suffix =
     (let stripped = rev (dropWhile (\<lambda>c. c = CHAR_FORWARD_SLASH) (rev path));
          seg = rev (takeWhile (\<lambda>c. c \<noteq> CHAR_FORWARD_SLASH) (rev stripped))
      in case suffix of
           None \<Rightarrow> seg
         | Some ext \<Rightarrow>
             if ext = [] \<or> length path < length ext then seg
             else if ext = path then []
             else if stripped = [] then path
             else if endsWith seg ext then
               (if seg = ext then seg else take (length seg - length ext) seg)
             else if endsWith ext seg then drop (length stripped - length seg) path
             else seg)"

subsection \<open>The file system\<close>

text \<open>
  The file system is a tree of directories and regular files below the root; the
  entries of a directory are listed in the order in which \<^verbatim>\<open>readdir\<close> returns them.
  Symbolic links, permissions and the other ways in which a system call can fail are
  not modelled.  The world of one run is the tree, the working directory (the names on
  the way from the root to it) and the log of the calls that changed the tree.
\<close>

datatype node = File bytes | Dir "(jsstring \<times> node) list"

datatype fs_op = Mkdir jsstring | WriteFile jsstring bytes

record world =
  root :: node
  cwd :: "jsstring list"
  changes :: "fs_op list"

text \<open>The node at a location, which is the list of the names on the way from the root.\<close>

fun lookup :: "node \<Rightarrow> jsstring list \<Rightarrow> node option" where
  "lookup n [] = Some n"
| "lookup (File c) (s # ss) = None"
| "lookup (Dir es) (s # ss) = (case map_of es s of None \<Rightarrow> None | Some n \<Rightarrow> lookup n ss)"

text \<open>
  A system call follows the segments of its path through the tree.  An empty segment
  and \<^verbatim>\<open>.\<close> stay where they are, \<^verbatim>\<open>..\<close> goes to the parent, which for the root is the
  root, and a name goes to the entry of that name.  Every step starts in a directory
  that exists: the call fails with \<^verbatim>\<open>ENOENT\<close> where there is nothing and with
  \<^verbatim>\<open>ENOTDIR\<close> where there is a regular file.  The location that the last step
  reaches need not exist.
\<close>

fun walk :: "node \<Rightarrow> jsstring list \<Rightarrow> jsstring list \<Rightarrow> exn + jsstring list" where
  "walk r cur [] = Inr cur"
| "walk r cur (s # ss) =
     (case lookup r cur of
        None \<Rightarrow> Inl ENOENT
      | Some (File c) \<Rightarrow> Inl ENOTDIR
      | Some (Dir es) \<Rightarrow>
          walk r (if s = [] \<or> s = [CHAR_DOT] then cur
                  else if s = [CHAR_DOT, CHAR_DOT] then butlast cur
                  else cur @ [s]) ss)"

text \<open>The place where a path starts: the root, or the working directory.\<close>

definition start :: "world \<Rightarrow> jsstring \<Rightarrow> jsstring list" where
  "start w path = (if isAbsolute path then [] else cwd w)"

text \<open>The empty path names nothing.\<close>

definition locate :: "world \<Rightarrow> jsstring \<Rightarrow> exn + jsstring list" where
  "locate w path =
     (if path = [] then Inl ENOENT
      else walk (root w) (start w path) (split_on CHAR_FORWARD_SLASH path))"

definition stat :: "world \<Rightarrow> jsstring \<Rightarrow> exn + node" where
  "stat w path =
     (case locate w path of
        Inl e \<Rightarrow> Inl e
      | Inr location \<Rightarrow>
          (case lookup (root w) location of None \<Rightarrow> Inl ENOENT | Some n \<Rightarrow> Inr n))"

fun isDirectory :: "node \<Rightarrow> bool" where
  "isDirectory (Dir es) = True"
| "isDirectory (File c) = False"

fun isFile :: "node \<Rightarrow> bool" where
  "isFile (File c) = True"
| "isFile (Dir es) = False"

definition existsSync :: "world \<Rightarrow> jsstring \<Rightarrow> bool" where
  "existsSync w path = (case stat w path of Inl e \<Rightarrow> False | Inr n \<Rightarrow> True)"

definition readFileSync :: "world \<Rightarrow> jsstring \<Rightarrow> exn + bytes" where
  "readFileSync w path =
     (case stat w path of
        Inl e \<Rightarrow> Inl e
      | Inr (Dir es) \<Rightarrow> Inl EISDIR
      | Inr (File c) \<Rightarrow> Inr c)"

text \<open>
  The tree with the entry \<open>name\<close> of the directory at \<open>location\<close> set to a node.  A
  new entry comes last in the directory.
\<close>

fun put :: "node \<Rightarrow> jsstring list \<Rightarrow> jsstring \<Rightarrow> node \<Rightarrow> node" where
  "put (Dir es) [] name n = Dir (AList.update name n es)"
| "put (Dir es) (s # ss) name n =
     (case map_of es s of
        None \<Rightarrow> Dir es
      | Some d \<Rightarrow> Dir (AList.update s (put d ss name n) es))"
| "put (File c) location name n = File c"

text \<open>
  \<^verbatim>\<open>mkdir\<close> with \<^verbatim>\<open>recursive: true\<close> creates the path and, before it, every
  directory on the way that is missing.  It follows the segments like every other
  call and creates the directory of a name that is not there; so the path
  \<^verbatim>\<open>a/../b\<close> creates both \<^verbatim>\<open>a\<close> and \<^verbatim>\<open>b\<close>.  A regular file at the end of the path
  gives \<^verbatim>\<open>EEXIST\<close>.
\<close>

fun mkdir_walk :: "node \<Rightarrow> jsstring list \<Rightarrow> jsstring list \<Rightarrow> exn + node" where
  "mkdir_walk r cur [] =
     (case lookup r cur of
        None \<Rightarrow> Inl ENOENT
      | Some (File c) \<Rightarrow> Inl EEXIST
      | Some (Dir es) \<Rightarrow> Inr r)"
| "mkdir_walk r cur (s # ss) =
     (case lookup r cur of
        None \<Rightarrow> Inl ENOENT
      | Some (File c) \<Rightarrow> Inl ENOTDIR
      | Some (Dir es) \<Rightarrow>
          if s = [] \<or> s = [CHAR_DOT] then mkdir_walk r cur ss
          else if s = [CHAR_DOT, CHAR_DOT] then mkdir_walk r (butlast cur) ss
          else
            (case map_of es s of
               None \<Rightarrow> mkdir_walk (put r cur s (Dir [])) (cur @ [s]) ss
             | Some n \<Rightarrow> mkdir_walk r (cur @ [s]) ss))"

definition mkdirSync :: "jsstring \<Rightarrow> world \<Rightarrow> world \<times> (exn + unit)" where
  "mkdirSync path w =
     (if path = [] then (w, Inl ENOENT)
      else
        (case mkdir_walk (root w) (start w path) (split_on CHAR_FORWARD_SLASH path) of
           Inl e \<Rightarrow> (w, Inl e)
         | Inr r \<Rightarrow> (w\<lparr>root := r, changes := changes w @ [Mkdir path]\<rparr>, Inr ())))"

text \<open>
  Writing a file opens it for writing, creating it if it is missing and emptying it
  otherwise.  The call follows the path to the directory that is to hold the file,
  which must exist.  A path that ends with a separator, with \<^verbatim>\<open>.\<close> or with \<^verbatim>\<open>..\<close>,
  and a path that names a directory, give \<^verbatim>\<open>EISDIR\<close>.
\<close>

definition writeFileSync :: "jsstring \<Rightarrow> bytes \<Rightarrow> world \<Rightarrow> world \<times> (exn + unit)" where
  "writeFileSync path content w =
     (if path = [] then (w, Inl ENOENT)
      else
        let names = filter (\<lambda>s. s \<noteq> []) (split_on CHAR_FORWARD_SLASH path)
        in (case walk (root w) (start w path) names of
              Inl e \<Rightarrow> (w, Inl e)
            | Inr location \<Rightarrow>
                if names = [] \<or> trailingSeparator path \<or> last names = [CHAR_DOT]
                   \<or> last names = [CHAR_DOT, CHAR_DOT]
                then (w, Inl EISDIR)
                else
                  (case lookup (root w) location of
                     Some (Dir es) \<Rightarrow> (w, Inl EISDIR)
                   | _ \<Rightarrow>
                       (w\<lparr>root := put (root w) (butlast location) (last location) (File content),
                          changes := changes w @ [WriteFile path content]\<rparr>, Inr ()))))"

section \<open>The archiver\<close>

text \<open>
  The two commands of the script take the platform, the arguments and the world, and
  return the world they leave and either the error that ended the run or the numbers
  of the final messages.  The other console output, the verbose listing and the
  formatting of sizes are not modelled.
\<close>

definition textToUint8Array :: "platform \<Rightarrow> jsstring \<Rightarrow> bytes" where
  "textToUint8Array P text = TextEncoder_encode P text"

definition uint8ArrayToText :: "platform \<Rightarrow> bytes \<Rightarrow> jsstring" where
  "uint8ArrayToText P array = TextDecoder_decode P array"

subsection \<open>Building the container (compressDirectory)\<close>

text \<open>The archive structure that is serialised as metadata.\<close>

definition archive :: "platform \<Rightarrow> bytes jsobject \<Rightarrow> json" where
  "archive P files =
     JObj [(js ''version'', JStr (js ''1.0'')),
           (js ''created'', JStr (Date_toISOString P)),
           (js ''files'',
            JArr (map (\<lambda>path. JObj [(js ''path'', JStr path),
                                     (js ''size'', JNum (int (length (obj_get files path))) 0)])
                      (Object_keys files)))]"

definition metadataBuffer :: "platform \<Rightarrow> bytes jsobject \<Rightarrow> bytes" where
  "metadataBuffer P files = textToUint8Array P (JSON_stringify P (archive P files))"

definition totalContentSize :: "bytes jsobject \<Rightarrow> nat" where
  "totalContentSize files = foldl (\<lambda>sum content. sum + length content) 0 (Object_values files)"

text \<open>
  One round of the loop over the sorted paths: the eight-byte header with the two
  lengths, the encoded path and the content.
\<close>

definition entryBuffers :: "platform \<Rightarrow> bytes jsobject \<Rightarrow> jsstring \<Rightarrow> bytes list" where
  "entryBuffers P files filePath =
     (let pathBuffer = textToUint8Array P filePath;
          content = obj_get files filePath
      in [Uint32_bytes (length pathBuffer) @ Uint32_bytes (length content), pathBuffer, content])"

text \<open>The bytes that one entry contributes to the container.\<close>

definition entryBytes :: "platform \<Rightarrow> bytes jsobject \<Rightarrow> jsstring \<Rightarrow> bytes" where
  "entryBytes P files filePath = concat (entryBuffers P files filePath)"

definition contentBuffers :: "platform \<Rightarrow> bytes jsobject \<Rightarrow> bytes list" where
  "contentBuffers P files = concat (map (entryBuffers P files) (sort (Object_keys files)))"

text \<open>
  All buffers in the order of the container: the four bytes with the length of the
  metadata, the metadata, and the buffers of the entries.
\<close>

definition allBuffers :: "platform \<Rightarrow> bytes jsobject \<Rightarrow> bytes list" where
  "allBuffers P files =
     [Uint32_bytes (length (metadataBuffer P files)), metadataBuffer P files]
     @ contentBuffers P files"

definition totalLength :: "platform \<Rightarrow> bytes jsobject \<Rightarrow> nat" where
  "totalLength P files = foldl (\<lambda>sum buffer. sum + length buffer) 0 (allBuffers P files)"

text \<open>
  The container: \<^verbatim>\<open>new Uint8Array(totalLength)\<close>, filled with the buffers one after
  the other.  The allocation throws a \<^verbatim>\<open>RangeError\<close> when the length is more than the
  runtime allows for a typed array.  A content read from a file is a typed array as
  well and so cannot be longer than that either; a dictionary with such a content is
  refused here at the latest.
\<close>

definition finalBuffer :: "platform \<Rightarrow> bytes jsobject \<Rightarrow> exn + bytes" where
  "finalBuffer P files =
     (if totalLength P files \<le> maxByteLength P then Inr (concat (allBuffers P files))
      else Inl RangeError)"

subsection \<open>Reading the container (uncompressArchive)\<close>

text \<open>
  A property of a parsed JSON value: reading a property of \<^verbatim>\<open>null\<close> throws a
  \<^verbatim>\<open>TypeError\<close>; an object yields the value stored under the key, and every other
  value yields \<^verbatim>\<open>undefined\<close> (here \<open>None\<close>).
\<close>

fun property :: "json \<Rightarrow> jsstring \<Rightarrow> exn + json option" where
  "property JNull k = Inl TypeError"
| "property (JObj ps) k = Inr (map_of ps k)"
| "property v k = Inr None"

fun truthy :: "json option \<Rightarrow> bool" where
  "truthy None = False"
| "truthy (Some JNull) = False"
| "truthy (Some (JBool b)) = b"
| "truthy (Some (JNum m e)) = (m \<noteq> 0)"
| "truthy (Some (JStr s)) = (s \<noteq> [])"
| "truthy (Some (JArr xs)) = True"
| "truthy (Some (JObj ps)) = True"

fun Array_isArray :: "json option \<Rightarrow> bool" where
  "Array_isArray (Some (JArr xs)) = True"
| "Array_isArray v = False"

fun array_length :: "json option \<Rightarrow> nat" where
  "array_length (Some (JArr xs)) = length xs"
| "array_length v = 0"

text \<open>
  The head of the container: the length of the metadata, the metadata and the checks
  on it.  The result is the length of the metadata and the file count.
\<close>

definition readMetadata :: "platform \<Rightarrow> bytes \<Rightarrow> error + (nat \<times> nat)" where
  "readMetadata P decompressed =
     (case DataView decompressed 0 4 of
        Inl e \<Rightarrow> Inl (Caught e)
      | Inr headerView \<Rightarrow>
          let metadataLength = getUint32 headerView 0;
              metadataBuffer = subarray decompressed 4 (4 + metadataLength);
              metadataJson = uint8ArrayToText P metadataBuffer
          in (case JSON_parse P metadataJson of
                Inl e \<Rightarrow> Inl (Caught e)
              | Inr metadata \<Rightarrow>
                  (case property metadata (js ''files'') of
                     Inl e \<Rightarrow> Inl (Caught e)
                   | Inr files \<Rightarrow>
                       if \<not> truthy files \<or> \<not> Array_isArray files then Inl InvalidArchiveFormat
                       else if array_length files = 0 then Inl NoFilesInArchive
                       else Inr (metadataLength, array_length files))))"

text \<open>
  One round of the extraction loop up to the point where the file is written: the
  header, the path and the content at \<open>offset\<close>, and the offset after them.
\<close>

definition readEntry :: "platform \<Rightarrow> bytes \<Rightarrow> nat \<Rightarrow> exn + (jsstring \<times> bytes \<times> nat)" where
  "readEntry P decompressed offset =
     (case DataView decompressed offset 8 of
        Inl e \<Rightarrow> Inl e
      | Inr fileHeaderView \<Rightarrow>
          let pathLength = getUint32 fileHeaderView 0;
              contentLength = getUint32 fileHeaderView 4;
              offset1 = offset + 8;
              pathBuffer = subarray decompressed offset1 (offset1 + pathLength);
              path = uint8ArrayToText P pathBuffer;
              offset2 = offset1 + pathLength;
              content = subarray decompressed offset2 (offset2 + contentLength);
              offset3 = offset2 + contentLength
          in Inr (path, content, offset3))"

text \<open>
  The entries that the loop \<^verbatim>\<open>while (offset < decompressed.length)\<close> reads, without
  the writing of the files.
\<close>

function readEntries :: "platform \<Rightarrow> bytes \<Rightarrow> nat \<Rightarrow> exn + (jsstring \<times> bytes) list" where
  "readEntries P decompressed offset =
     (if offset < length decompressed then
        (case readEntry P decompressed offset of
           Inl e \<Rightarrow> Inl e
         | Inr (path, content, offset') \<Rightarrow>
             (case readEntries P decompressed offset' of
                Inl e \<Rightarrow> Inl e
              | Inr rest \<Rightarrow> Inr ((path, content) # rest)))
      else Inr [])"
  by pat_completeness auto
termination
  by (relation "measure (\<lambda>(P, decompressed, offset). length decompressed - offset)")
     (auto simp: readEntry_def Let_def split: sum.splits)

declare readEntries.simps [simp del]

text \<open>
  The entries that the loop has read when it stops, at the end of the data or at a
  header that does not fit into what is left.
\<close>

function entriesRead :: "platform \<Rightarrow> bytes \<Rightarrow> nat \<Rightarrow> (jsstring \<times> bytes) list" where
  "entriesRead P decompressed offset =
     (if offset < length decompressed then
        (case readEntry P decompressed offset of
           Inl e \<Rightarrow> []
         | Inr (path, content, offset') \<Rightarrow> (path, content) # entriesRead P decompressed offset')
      else [])"
  by pat_completeness auto
termination
  by (relation "measure (\<lambda>(P, decompressed, offset). length decompressed - offset)")
     (auto simp: readEntry_def Let_def split: sum.splits)

declare entriesRead.simps [simp del]

text \<open>Decoding a container: the head, then the entries behind the metadata.\<close>

definition decode :: "platform \<Rightarrow> bytes \<Rightarrow> error + (jsstring \<times> bytes) list" where
  "decode P decompressed =
     (case readMetadata P decompressed of
        Inl e \<Rightarrow> Inl e
      | Inr (metadataLength, fileCount) \<Rightarrow>
          (case readEntries P decompressed (4 + metadataLength) of
             Inl e \<Rightarrow> Inl (Caught e)
           | Inr entries \<Rightarrow> Inr entries))"

subsection \<open>Command line options\<close>

text \<open>
  The Number value of a natural number: the number itself below \<open>2\<^sup>5\<^sup>3\<close>, and
  from there on the nearest double, the one with the even significand where two are
  equally near, and no double from \<open>2\<^sup>1\<^sup>0\<^sup>2\<^sup>4\<close> on.
\<close>

function bitLength :: "nat \<Rightarrow> nat" where
  "bitLength n = (if n = 0 then 0 else Suc (bitLength (n div 2)))"
  by pat_completeness auto
termination
  by (relation "measure id") auto

declare bitLength.simps [simp del]

definition roundToDouble :: "nat \<Rightarrow> nat option" where
  "roundToDouble n =
     (if n < 2 ^ 53 then Some n
      else
        let e = bitLength n - 53;
            q = n div 2 ^ e;
            r = n mod 2 ^ e;
            half = 2 ^ (e - 1);
            q' = (if half < r \<or> (r = half \<and> odd q) then q + 1 else q)
        in if q' * 2 ^ e < 2 ^ 1024 then Some (q' * 2 ^ e) else None)"

definition Number_of :: "bool \<Rightarrow> nat \<Rightarrow> number" where
  "Number_of negative n =
     (case roundToDouble n of
        None \<Rightarrow> if negative then NegInfinity else PosInfinity
      | Some v \<Rightarrow> Finite (if negative then - int v else int v))"

text \<open>
  \<open>parseInt\<close> without a radix: leading white space is skipped, a sign is read, the
  prefix \<^verbatim>\<open>0x\<close> selects base 16, and the longest run of digits is the value.  The
  result is the Number value of the integer that the digits denote, and \<^verbatim>\<open>NaN\<close>
  where there is no digit.  (Beyond twenty significant decimal digits a runtime may
  replace the digits that follow by zeros before it rounds; here it does not.)
\<close>

definition isWhiteSpace :: "16 word \<Rightarrow> bool" where
  "isWhiteSpace c =
     (let n = unat c
      in n \<in> {9, 10, 11, 12, 13, 32, 160, 5760, 8232, 8233, 8239, 8287, 12288, 65279}
         \<or> (8192 \<le> n \<and> n \<le> 8202))"

definition digit_in :: "nat \<Rightarrow> 16 word \<Rightarrow> nat option" where
  "digit_in radix c =
     (let n = unat c;
          v = (if 48 \<le> n \<and> n \<le> 57 then n - 48
               else if 97 \<le> n \<and> n \<le> 122 then n - 87
               else if 65 \<le> n \<and> n \<le> 90 then n - 55
               else radix)
      in if v < radix then Some v else None)"

definition digits_value :: "nat \<Rightarrow> jsstring \<Rightarrow> nat" where
  "digits_value radix s =
     foldl (\<lambda>a c. radix * a + (case digit_in radix c of Some v \<Rightarrow> v | None \<Rightarrow> 0)) 0 s"

definition parseInt :: "jsstring \<Rightarrow> number" where
  "parseInt string =
     (let s = dropWhile isWhiteSpace string;
          negative = (s \<noteq> [] \<and> hd s = 45);
          s1 = (if s \<noteq> [] \<and> (hd s = 45 \<or> hd s = 43) then tl s else s);
          hex = (length s1 \<ge> 2 \<and> hd s1 = 48 \<and> (s1 ! 1 = 120 \<or> s1 ! 1 = 88));
          radix = (if hex then 16 else 10);
          s2 = (if hex then drop 2 s1 else s1);
          z = takeWhile (\<lambda>c. digit_in radix c \<noteq> None) s2
      in if z = [] then NaN else Number_of negative (digits_value radix z))"

text \<open>
  The flags are the arguments that start with \<^verbatim>\<open>-\<close>.  The level is the number after
  the first \<^verbatim>\<open>=\<close> of the first flag that starts with \<^verbatim>\<open>--level=\<close> or \<^verbatim>\<open>-l=\<close>; a
  missing flag and the values \<^verbatim>\<open>NaN\<close> and 0 give 9.
\<close>

definition flags :: "jsstring list \<Rightarrow> jsstring list" where
  "flags args = filter (\<lambda>arg. startsWith arg (js ''-'')) args"

definition positionalArgs :: "jsstring list \<Rightarrow> jsstring list" where
  "positionalArgs args = filter (\<lambda>arg. \<not> startsWith arg (js ''-'')) args"

definition compressionLevelArg :: "jsstring list \<Rightarrow> jsstring option" where
  "compressionLevelArg args =
     find (\<lambda>arg. startsWith arg (js ''--level='') \<or> startsWith arg (js ''-l='')) (flags args)"

definition level :: "jsstring list \<Rightarrow> number" where
  "level args =
     (case compressionLevelArg args of
        None \<Rightarrow> Finite 9
      | Some arg \<Rightarrow>
          (case split_on 61 arg of
             x # y # ys \<Rightarrow>
               (let n = parseInt y in if n = NaN \<or> n = Finite 0 then Finite 9 else n)
           | _ \<Rightarrow> Finite 9))"

definition DEFAULT_EXTENSION :: jsstring where
  "DEFAULT_EXTENSION = js ''.bunz''"

subsection \<open>compressDirectory\<close>

text \<open>
  \<open>readFilesRecursively\<close> on the entries of the directory \<open>dir\<close>, with the object
  \<open>files\<close> filled so far.  The entries of a subdirectory are those that \<^verbatim>\<open>readdir\<close>
  returns for its full path.
\<close>

function readEntriesOfDir ::
  "jsstring \<Rightarrow> jsstring \<Rightarrow> (jsstring \<times> node) list \<Rightarrow> bytes jsobject \<Rightarrow> bytes jsobject" where
  "readEntriesOfDir dir baseDir [] files = files"
| "readEntriesOfDir dir baseDir ((name, File content) # entries) files =
     (let fullPath = join [dir, name];
          relativePath = drop (length baseDir + 1) fullPath
      in readEntriesOfDir dir baseDir entries (obj_set files relativePath content))"
| "readEntriesOfDir dir baseDir ((name, Dir sub) # entries) files =
     (let fullPath = join [dir, name];
          subDirFiles = readEntriesOfDir fullPath baseDir sub []
      in readEntriesOfDir dir baseDir entries (Object_assign files subDirFiles))"
  by pat_completeness auto
termination
  by (relation "measure (\<lambda>(dir, baseDir, entries, files).
        size_list (size_prod (\<lambda>x. 0) size) entries)") auto

definition readFilesRecursively :: "world \<Rightarrow> jsstring \<Rightarrow> exn + bytes jsobject" where
  "readFilesRecursively w dir =
     (case stat w dir of
        Inl e \<Rightarrow> Inl e
      | Inr (File c) \<Rightarrow> Inl ENOTDIR
      | Inr (Dir entries) \<Rightarrow> Inr (readEntriesOfDir dir dir entries []))"

text \<open>The numbers of the final messages: file count, original and compressed size.\<close>

record pack_report =
  packedFiles :: nat
  packedOriginalSize :: nat
  packedCompressedSize :: nat

definition compressDirectory ::
  "platform \<Rightarrow> jsstring list \<Rightarrow> jsstring \<Rightarrow> jsstring option \<Rightarrow> world
     \<Rightarrow> world \<times> (error + pack_report)" where
  "compressDirectory P args directoryPath outputFile w =
     (case stat w directoryPath of
        Inl e \<Rightarrow> (w, Inl (Caught e))
      | Inr dirStats \<Rightarrow>
          if \<not> isDirectory dirStats then (w, Inl NotADirectory)
          else
            let outputFile' =
                  (case outputFile of
                     None \<Rightarrow> basename directoryPath None @ DEFAULT_EXTENSION
                   | Some f \<Rightarrow> if f = [] then basename directoryPath None @ DEFAULT_EXTENSION else f)
            in (case readFilesRecursively w directoryPath of
                  Inl e \<Rightarrow> (w, Inl (Caught e))
                | Inr files \<Rightarrow>
                    if length (Object_keys files) = 0 then (w, Inl NoFilesFound)
                    else
                      (case finalBuffer P files of
                         Inl e \<Rightarrow> (w, Inl (Caught e))
                       | Inr buffer \<Rightarrow>
                           (case gzipSync P buffer (level args) of
                              Inl e \<Rightarrow> (w, Inl (Caught e))
                            | Inr compressed \<Rightarrow>
                                (case writeFileSync outputFile' compressed w of
                                   (w', Inl e) \<Rightarrow> (w', Inl (Caught e))
                                 | (w', Inr u) \<Rightarrow>
                                     (w', Inr \<lparr>packedFiles = length (Object_keys files),
                                               packedOriginalSize = totalContentSize files
                                                              + length (metadataBuffer P files),
                                               packedCompressedSize = length compressed\<rparr>))))))"

subsection \<open>uncompressArchive\<close>

definition ensureDirectoryExists :: "jsstring \<Rightarrow> world \<Rightarrow> world \<times> (exn + unit)" where
  "ensureDirectoryExists dirPath w =
     (if \<not> existsSync w dirPath then mkdirSync dirPath w else (w, Inr ()))"

text \<open>
  The extraction loop: each round reads one entry, makes sure that the directory of
  its full path exists and writes the file.  The result is the total extracted size.
\<close>

function extractFiles ::
  "platform \<Rightarrow> jsstring \<Rightarrow> bytes \<Rightarrow> nat \<Rightarrow> nat \<Rightarrow> world \<Rightarrow> world \<times> (exn + nat)" where
  "extractFiles P outputDir decompressed offset totalExtractedSize w =
     (if offset < length decompressed then
        (case readEntry P decompressed offset of
           Inl e \<Rightarrow> (w, Inl e)
         | Inr (path, content, offset') \<Rightarrow>
             let fullPath = join [outputDir, path];
                 fileDir = dirname fullPath
             in (case ensureDirectoryExists fileDir w of
                   (w1, Inl e) \<Rightarrow> (w1, Inl e)
                 | (w1, Inr u) \<Rightarrow>
                     (case writeFileSync fullPath content w1 of
                        (w2, Inl e) \<Rightarrow> (w2, Inl e)
                      | (w2, Inr u) \<Rightarrow>
                          extractFiles P outputDir decompressed offset'
                            (totalExtractedSize + length content) w2)))
      else (w, Inr totalExtractedSize))"
  by pat_completeness auto
termination
  by (relation "measure (\<lambda>(P, outputDir, decompressed, offset, extracted, w).
        length decompressed - offset)")
     (auto simp: readEntry_def Let_def split: sum.splits)

declare extractFiles.simps [simp del]

text \<open>The two numbers of the final messages: the file count and the extracted size.\<close>

record unpack_report =
  reportedFiles :: nat
  reportedSize :: nat

text \<open>The output directory: the one given, or the archive path without its extension.\<close>

definition outputDirOf :: "jsstring \<Rightarrow> jsstring option \<Rightarrow> jsstring" where
  "outputDirOf archivePath outputDir =
     (case outputDir of
        None \<Rightarrow> join [dirname archivePath, basename archivePath (Some DEFAULT_EXTENSION)]
      | Some d \<Rightarrow>
          if d = [] then join [dirname archivePath, basename archivePath (Some DEFAULT_EXTENSION)]
          else d)"

definition uncompressArchive ::
  "platform \<Rightarrow> jsstring \<Rightarrow> jsstring option \<Rightarrow> world \<Rightarrow> world \<times> (error + unpack_report)" where
  "uncompressArchive P archivePath outputDir w =
     (case stat w archivePath of
        Inl e \<Rightarrow> (w, Inl (Caught e))
      | Inr archiveStats \<Rightarrow>
          if \<not> isFile archiveStats then (w, Inl NotAFile)
          else
            (case ensureDirectoryExists (outputDirOf archivePath outputDir) w of
               (w1, Inl e) \<Rightarrow> (w1, Inl (Caught e))
             | (w1, Inr u) \<Rightarrow>
                 (case readFileSync w1 archivePath of
                    Inl e \<Rightarrow> (w1, Inl (Caught e))
                  | Inr archiveData \<Rightarrow>
                      (case gunzipSync P archiveData of
                         Inl e \<Rightarrow> (w1, Inl (Caught e))
                       | Inr decompressed \<Rightarrow>
                           (case readMetadata P decompressed of
                              Inl e \<Rightarrow> (w1, Inl e)
                            | Inr (metadataLength, fileCount) \<Rightarrow>
                                (case extractFiles P (outputDirOf archivePath outputDir)
                                        decompressed (4 + metadataLength) 0 w1 of
                                   (w2, Inl e) \<Rightarrow> (w2, Inl (Caught e))
                                 | (w2, Inr extracted) \<Rightarrow>
                                     (w2, Inr \<lparr>reportedFiles = fileCount,
                                               reportedSize = extracted\<rparr>)))))))"

subsection \<open>Observing a run\<close>

text \<open>The files written according to the log, with their contents, in order.\<close>

fun writes :: "fs_op list \<Rightarrow> (jsstring \<times> bytes) list" where
  "writes [] = []"
| "writes (WriteFile path content # ops) = (path, content) # writes ops"
| "writes (Mkdir path # ops) = writes ops"

text \<open>The buffers that are left of a buffer when it is cut before its end.\<close>

fun cuts :: "bytes \<Rightarrow> bytes list" where
  "cuts [] = []"
| "cuts (b # bs) = [] # map ((#) b) (cuts bs)"

text \<open>
  \<open>resolve\<close> gives the names of the absolute path that \<^verbatim>\<open>path.resolve\<close> computes
  for a path: the segments of the working directory and of the path, normalised.  It
  is the location that a system call reaches when it follows the path and all
  directories on the way exist.
\<close>

definition resolve :: "world \<Rightarrow> jsstring \<Rightarrow> jsstring list" where
  "resolve w path =
     normalizeString ((if isAbsolute path then [] else cwd w) @ split_on CHAR_FORWARD_SLASH path)
       False"

text \<open>
  A path lies under a directory when the location of the directory is an initial part
  of the location of the path.
\<close>

definition isUnder :: "world \<Rightarrow> jsstring \<Rightarrow> jsstring \<Rightarrow> bool" where
  "isUnder w dir path = (take (length (resolve w dir)) (resolve w path) = resolve w dir)"

section \<open>A concrete runtime\<close>

text \<open>
  The statements below hold for every platform.  To run the archiver on concrete
  inputs the functions of the runtime are given here: UTF-8 as the Encoding Standard
  defines it, JSON as ECMAScript defines it, and a stand-in for gzip.
\<close>

subsection \<open>UTF-8\<close>

definition isSurrogate :: "16 word \<Rightarrow> bool" where
  "isSurrogate u = (55296 \<le> unat u \<and> unat u < 57344)"

definition isLeadSurrogate :: "16 word \<Rightarrow> bool" where
  "isLeadSurrogate u = (55296 \<le> unat u \<and> unat u < 56320)"

definition isTrailSurrogate :: "16 word \<Rightarrow> bool" where
  "isTrailSurrogate u = (56320 \<le> unat u \<and> unat u < 57344)"

text \<open>
  The scalar values of a string: a surrogate pair is one code point, a surrogate
  without its partner becomes U+FFFD.
\<close>

fun scalar_values :: "jsstring \<Rightarrow> nat list" where
  "scalar_values [] = []"
| "scalar_values [u] = [if isSurrogate u then 65533 else unat u]"
| "scalar_values (u # v # us) =
     (if isLeadSurrogate u \<and> isTrailSurrogate v
      then (65536 + (unat u - 55296) * 1024 + (unat v - 56320)) # scalar_values us
      else (if isSurrogate u then 65533 else unat u) # scalar_values (v # us))"

definition utf8_bytes :: "nat \<Rightarrow> bytes" where
  "utf8_bytes cp =
     (if cp < 128 then [of_nat cp]
      else if cp < 2048 then [of_nat (192 + cp div 64), of_nat (128 + cp mod 64)]
      else if cp < 65536 then
        [of_nat (224 + cp div 4096), of_nat (128 + cp div 64 mod 64), of_nat (128 + cp mod 64)]
      else
        [of_nat (240 + cp div 262144), of_nat (128 + cp div 4096 mod 64),
         of_nat (128 + cp div 64 mod 64), of_nat (128 + cp mod 64)])"

definition utf8_encode :: "jsstring \<Rightarrow> bytes" where
  "utf8_encode text = concat (map utf8_bytes (scalar_values text))"

text \<open>
  The decoder keeps the code point under construction, the number of bytes it still
  needs and the bounds for the next byte.  A byte that cannot continue or start a
  sequence yields U+FFFD; a byte that cannot continue is read again as a first byte.
\<close>

definition utf8_lead :: "nat \<Rightarrow> nat list \<times> (nat \<times> nat \<times> nat \<times> nat)" where
  "utf8_lead b =
     (if b \<le> 127 then ([b], (0, 0, 128, 191))
      else if 194 \<le> b \<and> b \<le> 223 then ([], (b mod 32, 1, 128, 191))
      else if 224 \<le> b \<and> b \<le> 239 then
        ([], (b mod 16, 2, if b = 224 then 160 else 128, if b = 237 then 159 else 191))
      else if 240 \<le> b \<and> b \<le> 244 then
        ([], (b mod 8, 3, if b = 240 then 144 else 128, if b = 244 then 143 else 191))
      else ([65533], (0, 0, 128, 191)))"

fun utf8_decode_from :: "nat \<times> nat \<times> nat \<times> nat \<Rightarrow> bytes \<Rightarrow> nat list" where
  "utf8_decode_from (cp, needed, lower, upper) [] = (if needed = 0 then [] else [65533])"
| "utf8_decode_from (cp, needed, lower, upper) (x # xs) =
     (let b = unat x
      in if needed = 0 then
           (case utf8_lead b of (out, st) \<Rightarrow> out @ utf8_decode_from st xs)
         else if lower \<le> b \<and> b \<le> upper then
           (if needed = 1 then (cp * 64 + b mod 64) # utf8_decode_from (0, 0, 128, 191) xs
            else utf8_decode_from (cp * 64 + b mod 64, needed - 1, 128, 191) xs)
         else (case utf8_lead b of (out, st) \<Rightarrow> 65533 # out @ utf8_decode_from st xs))"

definition code_units :: "nat \<Rightarrow> jsstring" where
  "code_units cp =
     (if cp < 65536 then [of_nat cp]
      else [of_nat (55296 + (cp - 65536) div 1024), of_nat (56320 + (cp - 65536) mod 1024)])"

text \<open>A decoder made without options removes a byte order mark at the start.\<close>

definition utf8_decode :: "bytes \<Rightarrow> jsstring" where
  "utf8_decode array =
     (let input = (if take 3 array = [239, 187, 191] then drop 3 array else array)
      in concat (map code_units (utf8_decode_from (0, 0, 128, 191) input)))"

subsection \<open>JSON\<close>

fun digits_of :: "nat \<Rightarrow> nat \<Rightarrow> jsstring" where
  "digits_of 0 n = []"
| "digits_of (Suc fuel) n =
     (if n < 10 then [of_nat (48 + n)] else digits_of fuel (n div 10) @ [of_nat (48 + n mod 10)])"

definition decimal :: "nat \<Rightarrow> jsstring" where
  "decimal n = digits_of (Suc n) n"

definition hex_digit :: "nat \<Rightarrow> 16 word" where
  "hex_digit d = (if d < 10 then of_nat (48 + d) else of_nat (87 + d))"

definition unicode_escape :: "16 word \<Rightarrow> jsstring" where
  "unicode_escape u =
     (let n = unat u
      in [92, 117, hex_digit (n div 4096), hex_digit (n div 256 mod 16),
          hex_digit (n div 16 mod 16), hex_digit (n mod 16)])"

definition quote_unit :: "16 word \<Rightarrow> jsstring" where
  "quote_unit u =
     (if u = 34 then [92, 34]
      else if u = 92 then [92, 92]
      else if u = 8 then [92, 98]
      else if u = 12 then [92, 102]
      else if u = 10 then [92, 110]
      else if u = 13 then [92, 114]
      else if u = 9 then [92, 116]
      else if unat u < 32 \<or> isSurrogate u then unicode_escape u
      else [u])"

fun quote_units :: "jsstring \<Rightarrow> jsstring" where
  "quote_units [] = []"
| "quote_units [u] = quote_unit u"
| "quote_units (u # v # us) =
     (if isLeadSurrogate u \<and> isTrailSurrogate v then u # v # quote_units us
      else quote_unit u @ quote_units (v # us))"

definition quote :: "jsstring \<Rightarrow> jsstring" where
  "quote text = [34] @ quote_units text @ [34]"

text \<open>
  A number \<open>JNum m e\<close> stands for \<open>m \<times> 10\<^sup>e\<close>.  Integers are written as
  \<^verbatim>\<open>JSON.stringify\<close> writes them below \<open>10\<^sup>2\<^sup>1\<close>; the other numbers are written with
  all their digits.
\<close>

definition number_text :: "int \<Rightarrow> int \<Rightarrow> jsstring" where
  "number_text m e =
     (let sign = (if m < 0 then [45] else []);
          a = nat \<bar>m\<bar>
      in if 0 \<le> e then sign @ decimal (a * 10 ^ nat e)
         else
           let k = nat (- e);
               ds = decimal a;
               padded = replicate (Suc k - length ds) 48 @ ds
           in sign @ take (length padded - k) padded @ [46] @ drop (length padded - k) padded)"

fun stringify :: "json \<Rightarrow> jsstring" where
  "stringify JNull = js ''null''"
| "stringify (JBool b) = (if b then js ''true'' else js ''false'')"
| "stringify (JNum m e) = number_text m e"
| "stringify (JStr text) = quote text"
| "stringify (JArr xs) = [91] @ join_with 44 (map stringify xs) @ [93]"
| "stringify (JObj ps) =
     [123] @ join_with 44 (map (\<lambda>p. quote (fst p) @ [58] @ stringify (snd p)) ps) @ [125]"

definition skip_ws :: "jsstring \<Rightarrow> jsstring" where
  "skip_ws text = dropWhile (\<lambda>c. c = 32 \<or> c = 9 \<or> c = 10 \<or> c = 13) text"

definition hex4 :: "jsstring \<Rightarrow> 16 word option" where
  "hex4 hs =
     (if length hs = 4 \<and> list_all (\<lambda>c. digit_in 16 c \<noteq> None) hs
      then Some (of_nat (digits_value 16 hs)) else None)"

definition simple_escape :: "16 word \<Rightarrow> 16 word option" where
  "simple_escape c =
     (if c = 34 \<or> c = 92 \<or> c = 47 then Some c
      else if c = 98 then Some 8
      else if c = 102 then Some 12
      else if c = 110 then Some 10
      else if c = 114 then Some 13
      else if c = 116 then Some 9
      else None)"

text \<open>The characters of a string literal behind its opening quotation mark.\<close>

fun parse_string :: "jsstring \<Rightarrow> (jsstring \<times> jsstring) option" where
  "parse_string [] = None"
| "parse_string (c # r) =
     (if c = 34 then Some ([], r)
      else if c = 92 then
        (case r of
           [] \<Rightarrow> None
         | e # r1 \<Rightarrow>
             if e = 117 then
               (case r1 of
                  h1 # h2 # h3 # h4 # r2 \<Rightarrow>
                    (case hex4 [h1, h2, h3, h4] of
                       None \<Rightarrow> None
                     | Some u \<Rightarrow>
                         (case parse_string r2 of
                            None \<Rightarrow> None
                          | Some (text, rest) \<Rightarrow> Some (u # text, rest)))
                | _ \<Rightarrow> None)
             else
               (case simple_escape e of
                  None \<Rightarrow> None
                | Some u \<Rightarrow>
                    (case parse_string r1 of
                       None \<Rightarrow> None
                     | Some (text, rest) \<Rightarrow> Some (u # text, rest))))
      else if unat c < 32 then None
      else
        (case parse_string r of
           None \<Rightarrow> None
         | Some (text, rest) \<Rightarrow> Some (c # text, rest)))"

definition parse_number :: "jsstring \<Rightarrow> (json \<times> jsstring) option" where
  "parse_number text =
     (let negative = (text \<noteq> [] \<and> hd text = 45);
          s1 = (if negative then tl text else text);
          ds = takeWhile is_digit s1;
          r1 = dropWhile is_digit s1;
          has_frac = (r1 \<noteq> [] \<and> hd r1 = 46);
          fs = (if has_frac then takeWhile is_digit (tl r1) else []);
          r2 = (if has_frac then dropWhile is_digit (tl r1) else r1);
          has_exp = (r2 \<noteq> [] \<and> (hd r2 = 101 \<or> hd r2 = 69));
          r3 = (if has_exp then tl r2 else r2);
          exp_negative = (has_exp \<and> r3 \<noteq> [] \<and> hd r3 = 45);
          r4 = (if has_exp \<and> r3 \<noteq> [] \<and> (hd r3 = 45 \<or> hd r3 = 43) then tl r3 else r3);
          es = (if has_exp then takeWhile is_digit r4 else []);
          r5 = (if has_exp then dropWhile is_digit r4 else r4);
          m = int (decimal_value (ds @ fs));
          x = int (decimal_value es)
      in if ds = [] \<or> (length ds > 1 \<and> hd ds = 48) \<or> (has_frac \<and> fs = []) \<or> (has_exp \<and> es = [])
         then None
         else Some (JNum (if negative then - m else m)
                         ((if exp_negative then - x else x) - int (length fs)), r5))"

text \<open>
  A value, the elements of a non-empty array and the members of a non-empty object.
  The first argument bounds the depth of the calls; twice the length of the text is
  enough for every text.  A key that occurs twice keeps its place and takes the later
  value.
\<close>

fun parse_value :: "nat \<Rightarrow> jsstring \<Rightarrow> (json \<times> jsstring) option"
  and parse_elements :: "nat \<Rightarrow> jsstring \<Rightarrow> (json list \<times> jsstring) option"
  and parse_members :: "nat \<Rightarrow> jsstring \<Rightarrow> ((jsstring \<times> json) list \<times> jsstring) option"
where
  "parse_value 0 text = None"
| "parse_value (Suc n) text =
     (case skip_ws text of
        [] \<Rightarrow> None
      | c # r \<Rightarrow>
          if c = 123 then
            (case skip_ws r of
               [] \<Rightarrow> None
             | d # r1 \<Rightarrow>
                 if d = 125 then Some (JObj [], r1)
                 else (case parse_members n (d # r1) of
                         None \<Rightarrow> None
                       | Some (ps, rest) \<Rightarrow> Some (JObj (foldl (\<lambda>obj p. obj_set obj (fst p) (snd p)) [] ps), rest)))
          else if c = 91 then
            (case skip_ws r of
               [] \<Rightarrow> None
             | d # r1 \<Rightarrow>
                 if d = 93 then Some (JArr [], r1)
                 else (case parse_elements n (d # r1) of
                         None \<Rightarrow> None
                       | Some (xs, rest) \<Rightarrow> Some (JArr xs, rest)))
          else if c = 34 then
            (case parse_string r of None \<Rightarrow> None | Some (s, rest) \<Rightarrow> Some (JStr s, rest))
          else if startsWith (c # r) (js ''true'') then Some (JBool True, drop 4 (c # r))
          else if startsWith (c # r) (js ''false'') then Some (JBool False, drop 5 (c # r))
          else if startsWith (c # r) (js ''null'') then Some (JNull, drop 4 (c # r))
          else parse_number (c # r))"
| "parse_elements 0 text = None"
| "parse_elements (Suc n) text =
     (case parse_value n text of
        None \<Rightarrow> None
      | Some (x, r) \<Rightarrow>
          (case skip_ws r of
             [] \<Rightarrow> None
           | c # r1 \<Rightarrow>
               if c = 93 then Some ([x], r1)
               else if c = 44 then
                 (case parse_elements n r1 of
                    None \<Rightarrow> None
                  | Some (xs, rest) \<Rightarrow> Some (x # xs, rest))
               else None))"
| "parse_members 0 text = None"
| "parse_members (Suc n) text =
     (case skip_ws text of
        [] \<Rightarrow> None
      | q # r \<Rightarrow>
          if q \<noteq> 34 then None
          else
            (case parse_string r of
               None \<Rightarrow> None
             | Some (k, r1) \<Rightarrow>
                 (case skip_ws r1 of
                    [] \<Rightarrow> None
                  | c # r2 \<Rightarrow>
                      if c \<noteq> 58 then None
                      else
                        (case parse_value n r2 of
                           None \<Rightarrow> None
                         | Some (x, r3) \<Rightarrow>
                             (case skip_ws r3 of
                                [] \<Rightarrow> None
                              | d # r4 \<Rightarrow>
                                  if d = 125 then Some ([(k, x)], r4)
                                  else if d = 44 then
                                    (case parse_members n r4 of
                                       None \<Rightarrow> None
                                     | Some (ps, rest) \<Rightarrow> Some ((k, x) # ps, rest))
                                  else None)))))"

definition parse :: "jsstring \<Rightarrow> exn + json" where
  "parse text =
     (case parse_value (Suc (2 * length text)) text of
        None \<Rightarrow> Inl SyntaxError
      | Some (v, rest) \<Rightarrow> if skip_ws rest = [] then Inr v else Inl SyntaxError)"

subsection \<open>The compressor\<close>

text \<open>
  A stand-in for gzip: the two bytes of the gzip magic number, then the data as they
  are.  Like zlib it refuses a level outside \<open>-1, \<dots>, 9\<close>, and it refuses to
  decompress what does not start with the magic number.
\<close>

definition stored_gzip :: "bytes \<Rightarrow> number \<Rightarrow> exn + bytes" where
  "stored_gzip buffer lvl =
     (case lvl of
        Finite n \<Rightarrow> if - 1 \<le> n \<and> n \<le> 9 then Inr (31 # 139 # buffer) else Inl RangeError
      | _ \<Rightarrow> Inl RangeError)"

fun stored_gunzip :: "bytes \<Rightarrow> exn + bytes" where
  "stored_gunzip (a # b # buffer) = (if a = 31 \<and> b = 139 then Inr buffer else Inl ZlibError)"
| "stored_gunzip buffer = Inl ZlibError"

definition runtime :: "jsstring \<Rightarrow> platform" where
  "runtime created =
     \<lparr>TextEncoder_encode = utf8_encode,
      TextDecoder_decode = utf8_decode,
      JSON_stringify = stringify,
      JSON_parse = parse,
      gzipSync = stored_gzip,
      gunzipSync = stored_gunzip,
      Date_toISOString = created,
      maxByteLength = 2 ^ 32\<rparr>"

section \<open>Running the archiver on given inputs\<close>

text \<open>Equations for running the archiver and the concrete runtime on given inputs.\<close>

lemmas eval_text = js_def textToUint8Array_def uint8ArrayToText_def utf8_encode_def utf8_decode_def
  utf8_bytes_def utf8_lead_def code_units_def isSurrogate_def isLeadSurrogate_def isTrailSurrogate_def

lemmas eval_stringify = archive_def Object_keys_def is_array_index_def is_digit_def obj_get_def
  quote_def quote_unit_def number_text_def decimal_def
  digits_of.simps(2) [of "pred_numeral k" for k, folded numeral_eq_Suc]

lemmas eval_parse = Let_def parse_def skip_ws_def hex4_def simple_escape_def parse_number_def
  startsWith_def obj_set_def decimal_value_def digit_value_def
  parse_value.simps(2) [of "pred_numeral k" for k, folded numeral_eq_Suc]
  parse_elements.simps(2) [of "pred_numeral k" for k, folded numeral_eq_Suc]
  parse_members.simps(2) [of "pred_numeral k" for k, folded numeral_eq_Suc]

lemmas eval_fs = stat_def locate_def start_def resolve_def normalizeString_def normalize_step_def
  isAbsolute_def trailingSeparator_def CHAR_FORWARD_SLASH_def CHAR_DOT_def existsSync_def
  readFileSync_def mkdirSync_def writeFileSync_def ensureDirectoryExists_def join_def
  normalize_def dirname_def outputDirOf_def

lemmas eval_container = readMetadata_def readEntry_def DataView_def getUint32_def le_value_def
  subarray_def

section \<open>Properties of the container\<close>

subsection \<open>Length fields\<close>

lemma length_Uint32_bytes: "length (Uint32_bytes n) = 4"
  by (simp add: Uint32_bytes_def Let_def)

lemma four_bytes_value:
  fixes v :: nat
  assumes "v < 4294967296"
  shows "v mod 256 + 256 * (v div 256 mod 256 + 256 * (v div 65536 mod 256 + 256 * (v div 16777216 mod 256))) = v"
proof -
  have d1: "v div 65536 = v div 256 div 256" by (simp add: div_mult2_eq)
  have d2: "v div 16777216 = v div 256 div 256 div 256" by (simp add: div_mult2_eq)
  have top: "v div 256 div 256 div 256 < 256" using assms by (simp add: div_mult2_eq less_mult_imp_div_less)
  have s1: "a mod 256 + 256 * (a div 256) = a" for a :: nat by simp
  show ?thesis
    unfolding d1 d2 using top by (simp add: s1)
qed

lemma le_value_Uint32_bytes: "le_value (Uint32_bytes n) = n mod 2 ^ 32"
proof -
  define v where "v = n mod 2 ^ 32"
  have v: "v < 4294967296" by (simp add: v_def)
  have b: "unat (of_nat (k mod 256) :: byte) = k mod 256" for k
    by (simp add: unat_of_nat)
  have "le_value (Uint32_bytes n) = v mod 256 + 256 * (v div 256 mod 256 + 256 * (v div 65536 mod 256 + 256 * (v div 16777216 mod 256)))"
    unfolding Uint32_bytes_def ToUint32_def Let_def le_value_def v_def [symmetric]
    by (simp add: b)
  also have "\<dots> = v" by (rule four_bytes_value [OF v])
  finally show ?thesis by (simp add: v_def)
qed

lemma getUint32_Uint32_bytes: "getUint32 (Uint32_bytes n @ rest) 0 = n mod 2 ^ 32"
  by (simp add: getUint32_def length_Uint32_bytes le_value_Uint32_bytes)

lemma getUint32_second: "getUint32 (Uint32_bytes a @ Uint32_bytes n @ rest) 4 = n mod 2 ^ 32"
  by (simp add: getUint32_def length_Uint32_bytes le_value_Uint32_bytes)

lemma entryBytes_eq:
  "entryBytes P files k =
     Uint32_bytes (length (textToUint8Array P k)) @ Uint32_bytes (length (obj_get files k)) @
     textToUint8Array P k @ obj_get files k"
  by (simp add: entryBytes_def entryBuffers_def Let_def)

lemma readEntry_at:
  assumes "length pb < 2 ^ 32" and "length c < 2 ^ 32"
  shows "readEntry P (pre @ Uint32_bytes (length pb) @ Uint32_bytes (length c) @ pb @ c @ rest)
           (length pre) =
         Inr (uint8ArrayToText P pb, c, length pre + 8 + length pb + length c)"
proof -
  let ?h = "Uint32_bytes (length pb) @ Uint32_bytes (length c)"
  let ?buf = "pre @ Uint32_bytes (length pb) @ Uint32_bytes (length c) @ pb @ c @ rest"
  have view: "DataView ?buf (length pre) 8 = Inr ?h"
    by (simp add: DataView_def length_Uint32_bytes)
  have g0: "getUint32 ?h 0 = length pb"
    using assms(1) by (simp add: getUint32_Uint32_bytes)
  have g4: "getUint32 ?h 4 = length c"
    using assms(2) getUint32_second [of "length pb" "length c" "[]"] by simp
  have p: "subarray ?buf (length pre + 8) (length pre + 8 + length pb) = pb"
    by (simp add: subarray_def length_Uint32_bytes)
  have q: "subarray ?buf (length pre + 8 + length pb) (length pre + 8 + length pb + length c) = c"
    by (simp add: subarray_def length_Uint32_bytes)
  show ?thesis
    unfolding readEntry_def view by (simp add: g0 g4 p q Let_def)
qed

lemma readEntries_end: "length buf \<le> offset \<Longrightarrow> readEntries P buf offset = Inr []"
  by (simp add: readEntries.simps)

lemma readEntry_shift:
  "readEntry P (pre @ stream) (length pre + j) =
     map_sum id (\<lambda>(path, content, offset'). (path, content, length pre + offset')) (readEntry P stream j)"
  by (simp add: readEntry_def DataView_def subarray_def Let_def add.assoc)

lemma readEntries_shift:
  "readEntries P (pre @ stream) (length pre + j) = readEntries P stream j"
proof (induction P stream j rule: readEntries.induct)
  case (1 P stream j)
  show ?case
  proof (cases "j < length stream")
    case False
    then show ?thesis by (simp add: readEntries_end)
  next
    case True
    show ?thesis
    proof (cases "readEntry P stream j")
      case (Inl e)
      then show ?thesis
        using True by (subst readEntries.simps, subst (2) readEntries.simps) (simp add: readEntry_shift)
    next
      case (Inr entry)
      then obtain path content j' where entry: "readEntry P stream j = Inr (path, content, j')"
        by (cases entry) auto
      have "readEntries P (pre @ stream) (length pre + j') = readEntries P stream j'"
        by (rule "1.IH" [OF True entry refl refl])
      then show ?thesis
        using True entry by (subst readEntries.simps, subst (2) readEntries.simps) (simp add: readEntry_shift)
    qed
  qed
qed

lemma readEntries_entries:
  assumes "\<forall>k \<in> set ks. length (textToUint8Array P k) < 2 ^ 32 \<and> length (obj_get files k) < 2 ^ 32"
  shows "readEntries P (pre @ concat (map (entryBytes P files) ks)) (length pre) =
         Inr (map (\<lambda>k. (uint8ArrayToText P (textToUint8Array P k), obj_get files k)) ks)"
  using assms
proof (induction ks arbitrary: pre)
  case Nil
  then show ?case by (simp add: readEntries_end)
next
  case (Cons k ks)
  let ?pb = "textToUint8Array P k"
  let ?c = "obj_get files k"
  let ?rest = "concat (map (entryBytes P files) ks)"
  let ?buf = "pre @ concat (map (entryBytes P files) (k # ks))"
  have buf: "?buf = pre @ Uint32_bytes (length ?pb) @ Uint32_bytes (length ?c) @ ?pb @ ?c @ ?rest"
    by (simp add: entryBytes_eq)
  have lt: "length pre < length ?buf"
    by (simp add: entryBytes_eq length_Uint32_bytes)
  have one: "readEntry P ?buf (length pre) =
             Inr (uint8ArrayToText P ?pb, ?c, length pre + 8 + length ?pb + length ?c)"
    unfolding buf using Cons.prems by (intro readEntry_at) simp_all
  have next_pre: "length pre + 8 + length ?pb + length ?c = length (pre @ entryBytes P files k)"
    by (simp add: entryBytes_eq length_Uint32_bytes)
  have buf': "?buf = (pre @ entryBytes P files k) @ ?rest"
    by simp
  have rest: "readEntries P ?buf (length pre + 8 + length ?pb + length ?c) =
              Inr (map (\<lambda>k. (uint8ArrayToText P (textToUint8Array P k), obj_get files k)) ks)"
    unfolding next_pre buf' using Cons.prems by (intro Cons.IH) simp
  have "readEntries P ?buf (length pre) =
        Inr ((uint8ArrayToText P ?pb, ?c) #
             map (\<lambda>k. (uint8ArrayToText P (textToUint8Array P k), obj_get files k)) ks)"
    by (subst readEntries.simps) (simp only: lt one rest if_True sum.case prod.case)
  then show ?case by simp
qed

lemma allBuffers_eq:
  "concat (allBuffers P files) =
     Uint32_bytes (length (metadataBuffer P files)) @ metadataBuffer P files @
     concat (map (entryBytes P files) (sort (Object_keys files)))"
proof -
  have "concat (concat (map f ks)) = concat (map (\<lambda>k. concat (f k)) ks)" for f :: "jsstring \<Rightarrow> bytes list" and ks
    by (induction ks) simp_all
  then show ?thesis
    by (simp add: allBuffers_def contentBuffers_def entryBytes_def [abs_def])
qed

lemma foldl_lengths: "foldl (\<lambda>sum buffer. sum + length buffer) a bs = a + length (concat bs)"
  by (induction bs arbitrary: a) simp_all

lemma totalLength_eq: "totalLength P files = length (concat (allBuffers P files))"
  by (simp add: totalLength_def foldl_lengths)

lemma finalBuffer_Inr:
  "finalBuffer P files = Inr buffer \<longleftrightarrow>
     length (concat (allBuffers P files)) \<le> maxByteLength P \<and> buffer = concat (allBuffers P files)"
  by (auto simp: finalBuffer_def totalLength_eq)


lemma entry_in_stream:
  "k \<in> set ks \<Longrightarrow> length (f k) \<le> length (concat (map f ks))"
  by (induction ks) auto

lemma length_container:
  "length (concat (allBuffers P files)) =
     4 + length (metadataBuffer P files) +
     length (concat (map (entryBytes P files) (sort (Object_keys files))))"
  by (simp add: allBuffers_eq length_Uint32_bytes)

lemma lengths_in_container:
  assumes "length (concat (allBuffers P files)) \<le> 2 ^ 32"
  shows "length (metadataBuffer P files) < 2 ^ 32"
    and "k \<in> set (Object_keys files) \<Longrightarrow>
           length (textToUint8Array P k) < 2 ^ 32 \<and> length (obj_get files k) < 2 ^ 32"
proof -
  show "length (metadataBuffer P files) < 2 ^ 32"
    using assms unfolding length_container by simp
  assume "k \<in> set (Object_keys files)"
  then have "k \<in> set (sort (Object_keys files))"
    by simp
  from entry_in_stream [OF this, of "entryBytes P files"]
  have "8 + length (textToUint8Array P k) + length (obj_get files k) \<le>
        length (concat (map (entryBytes P files) (sort (Object_keys files))))"
    by (simp add: entryBytes_eq length_Uint32_bytes)
  then show "length (textToUint8Array P k) < 2 ^ 32 \<and> length (obj_get files k) < 2 ^ 32"
    using assms unfolding length_container by simp
qed


lemma example_one_file_length:
  "length (metadataBuffer (runtime (js ''T'')) [(js ''a'', [1, 2, 3])]) = 63"
  by (simp add: metadataBuffer_def runtime_def eval_stringify eval_text)


subsection \<open>Decoding what was encoded\<close>

lemma set_Object_keys: "set (Object_keys obj) = fst ` set obj"
  by (auto simp: Object_keys_def)

lemma distinct_Object_keys: "distinct (map fst obj) \<Longrightarrow> distinct (Object_keys obj)"
  by (auto simp: Object_keys_def distinct_map)

lemma length_Object_keys: "length (Object_keys obj) = length obj"
  using sum_length_filter_compl [of is_array_index "map fst obj"]
  by (simp add: Object_keys_def)

lemma js_files_keys:
  "js ''files'' \<noteq> js ''version''" "js ''files'' \<noteq> js ''created''"
  by (simp_all add: js_def)

lemma property_archive:
  "property (archive P files) (js ''files'') =
     Inr (Some (JArr (map (\<lambda>path. JObj [(js ''path'', JStr path),
                                            (js ''size'', JNum (int (length (obj_get files path))) 0)])
                          (Object_keys files))))"
  using js_files_keys by (simp add: archive_def)

lemma readMetadata_head:
  assumes "length m < 2 ^ 32"
  shows "readMetadata P (Uint32_bytes (length m) @ m @ stream) =
          (case JSON_parse P (uint8ArrayToText P m) of
             Inl e \<Rightarrow> Inl (Caught e)
           | Inr metadata \<Rightarrow>
               (case property metadata (js ''files'') of
                  Inl e \<Rightarrow> Inl (Caught e)
                | Inr files \<Rightarrow>
                    if \<not> truthy files \<or> \<not> Array_isArray files then Inl InvalidArchiveFormat
                    else if array_length files = 0 then Inl NoFilesInArchive
                    else Inr (length m, array_length files)))"
proof -
  let ?buf = "Uint32_bytes (length m) @ m @ stream"
  have view: "DataView ?buf 0 4 = Inr (Uint32_bytes (length m))"
    by (simp add: DataView_def length_Uint32_bytes)
  have len: "getUint32 (Uint32_bytes (length m)) 0 = length m"
    using assms getUint32_Uint32_bytes [of "length m" "[]"] by simp
  have sub: "subarray ?buf 4 (4 + length m) = m"
    by (simp add: subarray_def length_Uint32_bytes)
  show ?thesis
    unfolding readMetadata_def view by (simp add: len sub Let_def)
qed

lemma readMetadata_container:
  assumes "files \<noteq> []"
    and "length (metadataBuffer P files) < 2 ^ 32"
    and "JSON_parse P (uint8ArrayToText P (metadataBuffer P files)) = Inr (archive P files)"
  shows "readMetadata P (concat (allBuffers P files)) =
           Inr (length (metadataBuffer P files), length files)"
  unfolding allBuffers_eq
  using assms(1)
  by (simp add: readMetadata_head [OF assms(2)] assms(3) property_archive length_Object_keys)

lemma obj_get_distinct:
  "distinct (map fst files) \<Longrightarrow> (path, content) \<in> set files \<Longrightarrow> obj_get files path = content"
  by (simp add: obj_get_def)

lemma entries_set:
  assumes "distinct (map fst files)"
  shows "set (map (\<lambda>path. (path, obj_get files path)) (sort (Object_keys files))) = set files"
proof -
  have "(\<lambda>path. (path, obj_get files path)) ` fst ` set files = set files"
    using assms by (force simp: obj_get_distinct image_iff)
  then show ?thesis by (simp add: set_Object_keys)
qed

lemma decode_container:
  assumes "files \<noteq> []" and "distinct (map fst files)"
    and "length (concat (allBuffers P files)) \<le> 2 ^ 32"
    and "\<forall>(path, content) \<in> set files. uint8ArrayToText P (textToUint8Array P path) = path"
    and "JSON_parse P (uint8ArrayToText P (metadataBuffer P files)) = Inr (archive P files)"
  shows "decode P (concat (allBuffers P files)) =
           Inr (map (\<lambda>path. (path, obj_get files path)) (sort (Object_keys files)))"
proof -
  let ?ks = "sort (Object_keys files)"
  let ?m = "metadataBuffer P files"
  have keys: "\<forall>k \<in> set ?ks. length (textToUint8Array P k) < 2 ^ 32 \<and> length (obj_get files k) < 2 ^ 32"
    using lengths_in_container(2) [OF assms(3)] by simp
  have inv: "\<forall>k \<in> set ?ks. uint8ArrayToText P (textToUint8Array P k) = k"
    using assms(4) by (force simp: set_Object_keys)
  have "readEntries P ((Uint32_bytes (length ?m) @ ?m) @ concat (map (entryBytes P files) ?ks))
          (length (Uint32_bytes (length ?m) @ ?m)) =
        Inr (map (\<lambda>k. (uint8ArrayToText P (textToUint8Array P k), obj_get files k)) ?ks)"
    by (rule readEntries_entries [OF keys])
  moreover have "map (\<lambda>k. (uint8ArrayToText P (textToUint8Array P k), obj_get files k)) ?ks =
                 map (\<lambda>path. (path, obj_get files path)) ?ks"
    using inv by (intro map_cong) simp_all
  ultimately have entries: "readEntries P (concat (allBuffers P files)) (4 + length ?m) =
                            Inr (map (\<lambda>path. (path, obj_get files path)) ?ks)"
    by (simp add: allBuffers_eq length_Uint32_bytes)
  show ?thesis
    by (simp add: decode_def entries
        readMetadata_container [OF assms(1) lengths_in_container(1) [OF assms(3)] assms(5)])
qed

text \<open>
  Claim C1 as stated fails: a path that starts with U+FEFF does not come back.  The
  decoder removes a byte order mark at the start of what it decodes, so the entry of
  the path U+FEFF \<^verbatim>\<open>a\<close> is decoded as the entry of the path \<^verbatim>\<open>a\<close>.
\<close>

theorem leading_mark_is_lost:
  "finalBuffer (runtime (js ''T'')) [([65279, 97], [1])] =
     Inr (concat (allBuffers (runtime (js ''T'')) [([65279, 97], [1])])) \<and>
   decode (runtime (js ''T'')) (concat (allBuffers (runtime (js ''T'')) [([65279, 97], [1])])) =
     Inr [([97], [1])]"
proof -
  let ?P = "runtime (js ''T'')"
  let ?files = "[([65279, 97], [1 :: byte])] :: bytes jsobject"
  let ?m = "metadataBuffer ?P ?files"
  define pre where "pre = Uint32_bytes (length ?m) @ ?m"
  have size: "length ?m = 66"
    by (simp add: metadataBuffer_def runtime_def eval_stringify eval_text)
  have parsed: "JSON_parse ?P (uint8ArrayToText ?P ?m) = Inr (archive ?P ?files)"
    by (simp add: metadataBuffer_def runtime_def eval_stringify eval_text eval_parse)
  have e: "concat (map (entryBytes ?P ?files) (sort (Object_keys ?files))) =
           [4, 0, 0, 0, 1, 0, 0, 0, 239, 187, 191, 97, 1]"
    by (simp add: Object_keys_def is_array_index_def is_digit_def entryBytes_eq runtime_def
        eval_text obj_get_def Uint32_bytes_def ToUint32_def)
  have whole: "concat (allBuffers ?P ?files) = pre @ [4, 0, 0, 0, 1, 0, 0, 0, 239, 187, 191, 97, 1]"
    unfolding allBuffers_eq e pre_def by simp
  have len: "length pre = 70"
    by (simp add: pre_def length_Uint32_bytes size)
  have small: "length ?m < 2 ^ 32"
    by (simp add: size)
  have "readMetadata ?P (pre @ stream) = Inr (length ?m, 1)" for stream
    unfolding pre_def
    by (simp add: readMetadata_head [OF small] parsed property_archive length_Object_keys)
  then have head: "readMetadata ?P (pre @ stream) = Inr (66, 1)" for stream
    by (simp add: size)
  have at: "readEntries ?P (pre @ stream) 70 = readEntries ?P stream 0" for stream
    using readEntries_shift [of ?P pre stream 0] by (simp add: len)
  have entries: "readEntries ?P [4, 0, 0, 0, 1, 0, 0, 0, 239, 187, 191, 97, 1] 0 = Inr [([97], [1])]"
    by (simp add: readEntries.simps runtime_def eval_container eval_text)
  have "length (concat (allBuffers ?P ?files)) = 83"
    unfolding whole by (simp add: len)
  then have built: "finalBuffer ?P ?files = Inr (concat (allBuffers ?P ?files))"
    by (simp add: finalBuffer_Inr runtime_def)
  have "decode ?P (concat (allBuffers ?P ?files)) = Inr [([97], [1])]"
    unfolding whole by (simp add: decode_def head at entries)
  with built show ?thesis
    by (rule conjI)
qed

text \<open>
  Claim C1, as the code has it.  Let \<open>files\<close> be a non-empty dictionary from paths to
  contents whose container the runtime can hold, on a runtime whose typed arrays hold
  at most \<open>2\<^sup>3\<^sup>2\<close> bytes, so that every length fits its field.  Let every path be
  text that the UTF-8 encoder and decoder of the platform reproduce, and let the
  platform parse the serialised metadata back to the archive structure.  Then
  decoding the container that \<open>compressDirectory\<close> builds yields the entries of
  \<open>files\<close> in the order of their sorted paths: the same set of pairs of path and
  content, each path once.
\<close>

theorem decode_finalBuffer:
  assumes "files \<noteq> []" and "distinct (map fst files)"
    and "finalBuffer P files = Inr buffer" and "maxByteLength P \<le> 2 ^ 32"
    and "\<forall>(path, content) \<in> set files. uint8ArrayToText P (textToUint8Array P path) = path"
    and "JSON_parse P (uint8ArrayToText P (metadataBuffer P files)) = Inr (archive P files)"
  shows "decode P buffer =
           Inr (map (\<lambda>path. (path, obj_get files path)) (sort (Object_keys files)))
         \<and> set (map (\<lambda>path. (path, obj_get files path)) (sort (Object_keys files))) = set files
         \<and> distinct (map fst (map (\<lambda>path. (path, obj_get files path)) (sort (Object_keys files))))"
proof -
  let ?ks = "sort (Object_keys files)"
  from assms(3,4) have fits: "length (concat (allBuffers P files)) \<le> 2 ^ 32"
    and buffer: "buffer = concat (allBuffers P files)"
    by (simp_all add: finalBuffer_Inr)
  have "decode P buffer = Inr (map (\<lambda>path. (path, obj_get files path)) ?ks)"
    unfolding buffer by (rule decode_container [OF assms(1,2) fits assms(5,6)])
  moreover have "distinct (map fst (map (\<lambda>path. (path, obj_get files path)) ?ks))"
    using assms(2) by (simp add: comp_def distinct_Object_keys)
  ultimately show ?thesis
    using entries_set [OF assms(2)] by simp
qed

text \<open>
  The round trip on the concrete runtime for a file with empty content in a
  subdirectory, enumerated first, and a file of two bytes.
\<close>

theorem decode_finalBuffer_witness:
  "finalBuffer (runtime (js ''T'')) [(js ''sub/b.txt'', []), (js ''a.txt'', [104, 105])] =
     Inr (concat (allBuffers (runtime (js ''T'')) [(js ''sub/b.txt'', []), (js ''a.txt'', [104, 105])])) \<and>
   decode (runtime (js ''T''))
     (concat (allBuffers (runtime (js ''T'')) [(js ''sub/b.txt'', []), (js ''a.txt'', [104, 105])])) =
     Inr [(js ''a.txt'', [104, 105]), (js ''sub/b.txt'', [])]"
proof -
  let ?P = "runtime (js ''T'')"
  let ?files = "[(js ''sub/b.txt'', [] :: bytes), (js ''a.txt'', [104, 105])]"
  have keys: "distinct (map fst ?files)"
    by (simp add: js_def)
  have entries: "\<forall>(path, content) \<in> set ?files.
           uint8ArrayToText ?P (textToUint8Array ?P path) = path"
    by (simp add: runtime_def eval_text)
  have size: "length (metadataBuffer ?P ?files) = 97"
    by (simp add: metadataBuffer_def runtime_def eval_stringify eval_text)
  have parsed: "JSON_parse ?P (uint8ArrayToText ?P (metadataBuffer ?P ?files)) = Inr (archive ?P ?files)"
    by (simp add: metadataBuffer_def runtime_def eval_stringify eval_text eval_parse)
  have order: "sort (Object_keys ?files) = [js ''a.txt'', js ''sub/b.txt'']"
    by (simp add: Object_keys_def is_array_index_def is_digit_def js_def)
  have "length (concat (map (entryBytes ?P ?files) (sort (Object_keys ?files)))) = 32"
    unfolding order
    by (simp add: entryBytes_eq length_Uint32_bytes runtime_def eval_text obj_get_def)
  then have "length (concat (allBuffers ?P ?files)) = 133"
    unfolding length_container size by simp
  then have built: "finalBuffer ?P ?files = Inr (concat (allBuffers ?P ?files))"
    by (simp add: finalBuffer_Inr runtime_def)
  have cap: "maxByteLength ?P \<le> 2 ^ 32"
    by (simp add: runtime_def)
  from decode_finalBuffer [of ?files ?P, OF _ keys built cap entries parsed] built
  show ?thesis
    unfolding order by (simp add: obj_get_def js_def)
qed

subsection \<open>Enumeration order\<close>









subsection \<open>The compression level\<close>

















subsection \<open>What a run changes\<close>

lemma writes_append: "writes (ops @ ops') = writes ops @ writes ops'"
  by (induction ops rule: writes.induct) simp_all

lemma mkdirSync_result:
  assumes "mkdirSync path w = (w', r)"
  shows "(r \<noteq> Inr () \<longrightarrow> w' = w) \<and> cwd w' = cwd w \<and>
         (changes w' = changes w \<or> changes w' = changes w @ [Mkdir path]) \<and>
         (r = Inr () \<longrightarrow> changes w' = changes w @ [Mkdir path])"
  using assms by (auto simp: mkdirSync_def split: sum.splits if_splits)

lemma ensureDirectoryExists_result:
  assumes "ensureDirectoryExists dirPath w = (w', r)"
  shows "(r \<noteq> Inr () \<longrightarrow> w' = w) \<and> cwd w' = cwd w \<and>
         (w' = w \<or> changes w' = changes w @ [Mkdir dirPath]) \<and>
         writes (changes w') = writes (changes w)"
proof (cases "existsSync w dirPath")
  case True
  then show ?thesis using assms by (auto simp: ensureDirectoryExists_def)
next
  case False
  then have "mkdirSync dirPath w = (w', r)"
    using assms by (simp add: ensureDirectoryExists_def)
  from mkdirSync_result [OF this] show ?thesis
    by (auto simp: writes_append)
qed

lemma writeFileSync_result:
  assumes "writeFileSync path content w = (w', r)"
  shows "(r \<noteq> Inr () \<longrightarrow> w' = w) \<and> cwd w' = cwd w \<and>
         (r = Inr () \<longrightarrow> changes w' = changes w @ [WriteFile path content])"
  using assms
  by (auto simp: writeFileSync_def Let_def split: sum.splits if_splits option.splits node.splits)

text \<open>
  A successful extraction has read the entries of the stream to its end and has
  written one file for each, at the output directory joined with the path of the
  entry, in the order of the stream.
\<close>

lemma extractFiles_success:
  assumes "extractFiles P outputDir decompressed offset extracted w = (w', Inr result)"
  shows "\<exists>entries. readEntries P decompressed offset = Inr entries \<and>
           writes (changes w') =
             writes (changes w) @ map (\<lambda>(path, content). (join [outputDir, path], content)) entries \<and>
           result = extracted + sum_list (map (\<lambda>(path, content). length content) entries) \<and>
           cwd w' = cwd w"
  using assms
proof (induction P outputDir decompressed offset extracted w rule: extractFiles.induct)
  case (1 P outputDir decompressed offset extracted w)
  show ?case
  proof (cases "offset < length decompressed")
    case False
    then show ?thesis
      using "1.prems" by (simp add: extractFiles.simps readEntries.simps)
  next
    case True
    from True "1.prems" obtain path content offset' where
      entry: "readEntry P decompressed offset = Inr (path, content, offset')"
      by (subst (asm) extractFiles.simps) (auto split: sum.splits)
    let ?fullPath = "join [outputDir, path]"
    obtain w1 r1 where dir: "ensureDirectoryExists (dirname ?fullPath) w = (w1, r1)"
      by (cases "ensureDirectoryExists (dirname ?fullPath) w")
    obtain w2 r2 where wr: "writeFileSync ?fullPath content w1 = (w2, r2)"
      by (cases "writeFileSync ?fullPath content w1")
    from True "1.prems" entry dir wr have ok: "r1 = Inr ()" "r2 = Inr ()"
      and rest: "extractFiles P outputDir decompressed offset' (extracted + length content) w2 =
                 (w', Inr result)"
      by (subst (asm) extractFiles.simps; simp add: Let_def split: sum.splits)+
    from "1.IH" [OF True entry refl refl refl refl _ refl _ refl rest]
    obtain entries where
      entries: "readEntries P decompressed offset' = Inr entries"
      and log: "writes (changes w') =
             writes (changes w2) @ map (\<lambda>(path, content). (join [outputDir, path], content)) entries"
      and size: "result = extracted + length content + sum_list (map (\<lambda>(path, content). length content) entries)"
      and wd: "cwd w' = cwd w2"
      using dir wr ok by auto
    have w2: "writes (changes w2) = writes (changes w) @ [(?fullPath, content)]" "cwd w2 = cwd w"
      using ensureDirectoryExists_result [OF dir] writeFileSync_result [OF wr] ok
      by (simp_all add: writes_append)
    have "readEntries P decompressed offset = Inr ((path, content) # entries)"
      by (subst readEntries.simps) (simp add: True entry entries)
    then show ?thesis
      using log size wd w2 by simp
  qed
qed

lemma uncompressArchive_success:
  assumes "uncompressArchive P archivePath outputDir w = (w', Inr report)"
  shows "\<exists>archiveStats w1 archiveData decompressed metadataLength.
           stat w archivePath = Inr archiveStats \<and> isFile archiveStats \<and>
           ensureDirectoryExists (outputDirOf archivePath outputDir) w = (w1, Inr ()) \<and>
           readFileSync w1 archivePath = Inr archiveData \<and>
           gunzipSync P archiveData = Inr decompressed \<and>
           readMetadata P decompressed = Inr (metadataLength, reportedFiles report) \<and>
           extractFiles P (outputDirOf archivePath outputDir) decompressed (4 + metadataLength) 0 w1 =
             (w', Inr (reportedSize report))"
  using assms
  by (auto simp: uncompressArchive_def split: sum.splits prod.splits if_splits)

lemma files_empty_array:
  "(\<not> (\<not> truthy files \<or> \<not> Array_isArray files) \<and> array_length files = 0) = (files = Some (JArr []))"
  by (cases files rule: truthy.cases) auto

lemma files_array:
  "\<not> (\<not> truthy files \<or> \<not> Array_isArray files) \<Longrightarrow> \<exists>xs. files = Some (JArr xs)"
  by (cases files rule: truthy.cases) auto

lemma DataView_head: "DataView buffer 0 4 = (if 4 \<le> length buffer then Inr (take 4 buffer) else Inl RangeError)"
  by (simp add: DataView_def)

lemma getUint32_take: "getUint32 (take 4 buffer) 0 = getUint32 buffer 0"
  by (simp add: getUint32_def)

lemma readMetadata_empty_iff:
  "readMetadata P decompressed = Inl NoFilesInArchive \<longleftrightarrow>
     4 \<le> length decompressed \<and>
     (\<exists>metadata.
        JSON_parse P (uint8ArrayToText P (subarray decompressed 4 (4 + getUint32 decompressed 0))) =
          Inr metadata \<and>
        property metadata (js ''files'') = Inr (Some (JArr [])))"
proof (cases "4 \<le> length decompressed")
  case False
  then show ?thesis by (simp add: readMetadata_def DataView_head)
next
  case True
  let ?text = "uint8ArrayToText P (subarray decompressed 4 (4 + getUint32 decompressed 0))"
  show ?thesis
  proof (cases "JSON_parse P ?text")
    case (Inl e)
    then show ?thesis using True by (simp add: readMetadata_def DataView_head getUint32_take Let_def)
  next
    case (Inr metadata)
    show ?thesis
    proof (cases "property metadata (js ''files'')")
      case (Inl e)
      then show ?thesis using True Inr by (simp add: readMetadata_def DataView_head getUint32_take Let_def)
    next
      case files: (Inr files)
      have "readMetadata P decompressed = Inl NoFilesInArchive \<longleftrightarrow> files = Some (JArr [])"
        using True Inr files files_empty_array [of files]
        by (auto simp: readMetadata_def DataView_head getUint32_take Let_def)
      then show ?thesis using True Inr files by simp
    qed
  qed
qed

lemma readMetadata_count:
  assumes "readMetadata P decompressed = Inr (metadataLength, fileCount)"
  shows "\<exists>metadata xs.
           JSON_parse P (uint8ArrayToText P (subarray decompressed 4 (4 + metadataLength))) = Inr metadata \<and>
           property metadata (js ''files'') = Inr (Some (JArr xs)) \<and> fileCount = length xs \<and>
           metadataLength = getUint32 decompressed 0"
proof -
  from assms have len: "4 \<le> length decompressed"
    by (auto simp: readMetadata_def DataView_head split: if_splits)
  from assms len obtain metadata files where
    parsed: "JSON_parse P (uint8ArrayToText P (subarray decompressed 4 (4 + getUint32 decompressed 0))) = Inr metadata"
    and lst: "property metadata (js ''files'') = Inr files"
    and ok: "\<not> (\<not> truthy files \<or> \<not> Array_isArray files)"
    and res: "metadataLength = getUint32 decompressed 0" "fileCount = array_length files"
    by (auto simp: readMetadata_def DataView_head getUint32_take Let_def split: sum.splits if_splits)
  from files_array [OF ok] obtain xs where "files = Some (JArr xs)" ..
  then show ?thesis using parsed lst res by auto
qed

subsection \<open>The reported file count\<close>

text \<open>
  Claim C10.  When \<open>uncompressArchive\<close> succeeds, the file count it reports is the
  length of the \<^verbatim>\<open>files\<close> list of the parsed metadata, while the files it has written
  are the entries of the stream, one file for each.  So whenever the length of the list
  differs from the number of entries, the reported count differs from the number of
  files written.
\<close>

theorem reported_count_is_metadata_length:
  assumes "uncompressArchive P archivePath outputDir w = (w', Inr report)"
  shows "\<exists>w1 archiveData decompressed metadataLength metadata xs entries.
           ensureDirectoryExists (outputDirOf archivePath outputDir) w = (w1, Inr ()) \<and>
           readFileSync w1 archivePath = Inr archiveData \<and>
           gunzipSync P archiveData = Inr decompressed \<and>
           JSON_parse P (uint8ArrayToText P (subarray decompressed 4 (4 + metadataLength))) = Inr metadata \<and>
           property metadata (js ''files'') = Inr (Some (JArr xs)) \<and>
           reportedFiles report = length xs \<and>
           readEntries P decompressed (4 + metadataLength) = Inr entries \<and>
           writes (changes w') =
             writes (changes w) @
             map (\<lambda>(path, content). (join [outputDirOf archivePath outputDir, path], content)) entries \<and>
           (length xs \<noteq> length entries \<longrightarrow>
              reportedFiles report \<noteq> length (writes (changes w')) - length (writes (changes w)))"
proof -
  from uncompressArchive_success [OF assms] obtain w1 archiveData decompressed metadataLength where
    dir: "ensureDirectoryExists (outputDirOf archivePath outputDir) w = (w1, Inr ())"
    and rd: "readFileSync w1 archivePath = Inr archiveData"
    and gz: "gunzipSync P archiveData = Inr decompressed"
    and md: "readMetadata P decompressed = Inr (metadataLength, reportedFiles report)"
    and ex: "extractFiles P (outputDirOf archivePath outputDir) decompressed (4 + metadataLength) 0 w1 =
             (w', Inr (reportedSize report))"
    by blast
  from readMetadata_count [OF md] obtain metadata xs where
    parsed: "JSON_parse P (uint8ArrayToText P (subarray decompressed 4 (4 + metadataLength))) = Inr metadata"
    and lst: "property metadata (js ''files'') = Inr (Some (JArr xs))"
    and count: "reportedFiles report = length xs"
    by blast
  from extractFiles_success [OF ex] obtain entries where
    entries: "readEntries P decompressed (4 + metadataLength) = Inr entries"
    and log: "writes (changes w') =
             writes (changes w1) @
             map (\<lambda>(path, content). (join [outputDirOf archivePath outputDir, path], content)) entries"
    by blast
  have w1: "writes (changes w1) = writes (changes w)"
    using ensureDirectoryExists_result [OF dir] by simp
  have "length (writes (changes w')) - length (writes (changes w)) = length entries"
    by (simp add: log w1)
  then show ?thesis
    using dir rd gz parsed lst count entries log w1 by auto
qed

lemma example_two_listed_one_stored:
  "uncompressArchive (runtime (js ''T'')) (js ''a.bunz'') (Some (js ''out''))
     \<lparr>root = Dir [(js ''a.bunz'',
         File ([31, 139] @ [15, 0, 0, 0] @
               [123, 34, 102, 105, 108, 101, 115, 34, 58, 91, 49, 44, 50, 93, 125] @
               [1, 0, 0, 0, 1, 0, 0, 0, 102, 7]))],
      cwd = [], changes = []\<rparr> =
   (\<lparr>root = Dir [(js ''a.bunz'',
         File ([31, 139] @ [15, 0, 0, 0] @
               [123, 34, 102, 105, 108, 101, 115, 34, 58, 91, 49, 44, 50, 93, 125] @
               [1, 0, 0, 0, 1, 0, 0, 0, 102, 7])),
        (js ''out'', Dir [(js ''f'', File [7])])],
      cwd = [], changes = [Mkdir (js ''out''), WriteFile (js ''out/f'') [7]]\<rparr>,
    Inr \<lparr>reportedFiles = 2, reportedSize = 1\<rparr>)"
  by (simp add: uncompressArchive_def extractFiles.simps runtime_def eval_fs eval_container
      eval_text eval_parse is_digit_def js_def)

text \<open>
  An archive whose metadata list two files and whose stream holds one: the run
  reports two files and has written one.
\<close>

theorem reported_count_is_metadata_length_witness:
  "\<exists>w' report.
     uncompressArchive (runtime (js ''T'')) (js ''a.bunz'') (Some (js ''out''))
       \<lparr>root = Dir [(js ''a.bunz'',
           File ([31, 139] @ [15, 0, 0, 0] @
                 [123, 34, 102, 105, 108, 101, 115, 34, 58, 91, 49, 44, 50, 93, 125] @
                 [1, 0, 0, 0, 1, 0, 0, 0, 102, 7]))],
        cwd = [], changes = []\<rparr> = (w', Inr report) \<and>
     reportedFiles report = 2 \<and> length (writes (changes w')) = 1 \<and>
     reportedFiles report \<noteq> length (writes (changes w')) - length (writes [])"
proof -
  define w0 where "w0 = \<lparr>root = Dir [(js ''a.bunz'',
           File ([31, 139] @ [15, 0, 0, 0] @
                 [123, 34, 102, 105, 108, 101, 115, 34, 58, 91, 49, 44, 50, 93, 125] @
                 [1, 0, 0, 0, 1, 0, 0, 0, 102, 7 :: byte]))],
        cwd = [], changes = []\<rparr>"
  obtain w' report where run:
    "uncompressArchive (runtime (js ''T'')) (js ''a.bunz'') (Some (js ''out'')) w0 = (w', Inr report)"
    and report: "reportedFiles report = 2" and log: "length (writes (changes w')) = 1"
    unfolding w0_def using example_two_listed_one_stored by simp
  have start: "writes (changes w0) = []"
    by (simp add: w0_def)
  from reported_count_is_metadata_length [OF run]
  obtain xs :: "json list" and entries :: "(jsstring \<times> bytes) list" and f where
    a: "reportedFiles report = length xs"
    and b: "writes (changes w') = writes (changes w0) @ map f entries"
    and c: "length xs \<noteq> length entries \<longrightarrow>
              reportedFiles report \<noteq> length (writes (changes w')) - length (writes (changes w0))"
    by blast
  have "length entries = 1"
    using b log by (simp add: start)
  with a report c have "reportedFiles report \<noteq> length (writes (changes w')) - length (writes [])"
    by (simp add: start)
  with run report log show ?thesis
    unfolding w0_def by blast
qed

subsection \<open>The empty archive error\<close>

lemma uncompressArchive_empty:
  "snd (uncompressArchive P archivePath outputDir w) = Inl NoFilesInArchive \<longleftrightarrow>
     (\<exists>archiveStats w1 archiveData decompressed.
        stat w archivePath = Inr archiveStats \<and> isFile archiveStats \<and>
        ensureDirectoryExists (outputDirOf archivePath outputDir) w = (w1, Inr ()) \<and>
        readFileSync w1 archivePath = Inr archiveData \<and>
        gunzipSync P archiveData = Inr decompressed \<and>
        readMetadata P decompressed = Inl NoFilesInArchive)"
  by (auto simp: uncompressArchive_def split: sum.splits prod.splits if_splits)

lemma uncompressArchive_empty_world:
  assumes "snd (uncompressArchive P archivePath outputDir w) = Inl NoFilesInArchive"
  shows "fst (uncompressArchive P archivePath outputDir w) =
         fst (ensureDirectoryExists (outputDirOf archivePath outputDir) w)"
  using assms
  by (auto simp: uncompressArchive_def split: sum.splits prod.splits if_splits)

lemma example_empty_list_run:
  "uncompressArchive (runtime (js ''T'')) (js ''a.bunz'') (Some (js ''out''))
     \<lparr>root = Dir [(js ''a.bunz'',
         File ([31, 139] @ [12, 0, 0, 0] @ [123, 34, 102, 105, 108, 101, 115, 34, 58, 91, 93, 125] @
               [1, 0, 0, 0, 1, 0, 0, 0, 102, 7]))],
      cwd = [], changes = []\<rparr> =
   (\<lparr>root = Dir [(js ''a.bunz'',
         File ([31, 139] @ [12, 0, 0, 0] @ [123, 34, 102, 105, 108, 101, 115, 34, 58, 91, 93, 125] @
               [1, 0, 0, 0, 1, 0, 0, 0, 102, 7])),
        (js ''out'', Dir [])],
      cwd = [], changes = [Mkdir (js ''out'')]\<rparr>,
    Inl NoFilesInArchive)"
  by (simp add: uncompressArchive_def runtime_def eval_fs eval_container eval_text eval_parse js_def)

lemma example_empty_list_entries:
  "readEntries (runtime (js ''T''))
     ([12, 0, 0, 0] @ [123, 34, 102, 105, 108, 101, 115, 34, 58, 91, 93, 125] @
      [1, 0, 0, 0, 1, 0, 0, 0, 102, 7]) 16 = Inr [(js ''f'', [7])]"
  by (simp add: readEntries.simps runtime_def eval_container eval_text)

text \<open>
  Claim C6, as the code has it.  \<open>uncompressArchive\<close> ends with the error for an
  archive without files if and only if the steps before the check succeed and the
  \<^verbatim>\<open>files\<close> property of the parsed metadata is the empty array.  The entries of the
  stream are not read before the check and do not enter it.
\<close>

theorem empty_archive_error_iff:
  "snd (uncompressArchive P archivePath outputDir w) = Inl NoFilesInArchive \<longleftrightarrow>
     (\<exists>archiveStats w1 archiveData decompressed metadata.
        stat w archivePath = Inr archiveStats \<and> isFile archiveStats \<and>
        ensureDirectoryExists (outputDirOf archivePath outputDir) w = (w1, Inr ()) \<and>
        readFileSync w1 archivePath = Inr archiveData \<and>
        gunzipSync P archiveData = Inr decompressed \<and>
        4 \<le> length decompressed \<and>
        JSON_parse P (uint8ArrayToText P
          (subarray decompressed 4 (4 + getUint32 decompressed 0))) = Inr metadata \<and>
        property metadata (js ''files'') = Inr (Some (JArr [])))"
  unfolding uncompressArchive_empty readMetadata_empty_iff by blast

theorem empty_archive_error_iff_witness:
  "\<exists>w1 archiveData decompressed metadata.
     ensureDirectoryExists (js ''out'')
       \<lparr>root = Dir [(js ''a.bunz'',
           File ([31, 139] @ [12, 0, 0, 0] @ [123, 34, 102, 105, 108, 101, 115, 34, 58, 91, 93, 125] @
                 [1, 0, 0, 0, 1, 0, 0, 0, 102, 7]))],
        cwd = [], changes = []\<rparr> = (w1, Inr ()) \<and>
     readFileSync w1 (js ''a.bunz'') = Inr archiveData \<and>
     gunzipSync (runtime (js ''T'')) archiveData = Inr decompressed \<and>
     JSON_parse (runtime (js ''T'')) (uint8ArrayToText (runtime (js ''T''))
       (subarray decompressed 4 (4 + getUint32 decompressed 0))) = Inr metadata \<and>
     property metadata (js ''files'') = Inr (Some (JArr []))"
proof -
  have out: "outputDirOf (js ''a.bunz'') (Some (js ''out'')) = js ''out''"
    by (simp add: outputDirOf_def js_def)
  have "snd (uncompressArchive (runtime (js ''T'')) (js ''a.bunz'') (Some (js ''out''))
       \<lparr>root = Dir [(js ''a.bunz'',
           File ([31, 139] @ [12, 0, 0, 0] @ [123, 34, 102, 105, 108, 101, 115, 34, 58, 91, 93, 125] @
                 [1, 0, 0, 0, 1, 0, 0, 0, 102, 7]))],
        cwd = [], changes = []\<rparr>) = Inl NoFilesInArchive"
    unfolding example_empty_list_run by simp
  from this [unfolded empty_archive_error_iff out] show ?thesis by blast
qed

text \<open>
  Claim C6 as stated fails: the metadata of this archive list no file and its stream
  holds one entry.  The run ends with the error for an empty archive although the
  number of entries in the stream is one.
\<close>

theorem empty_archive_error_with_entries:
  "snd (uncompressArchive (runtime (js ''T'')) (js ''a.bunz'') (Some (js ''out''))
     \<lparr>root = Dir [(js ''a.bunz'',
         File ([31, 139] @ [12, 0, 0, 0] @ [123, 34, 102, 105, 108, 101, 115, 34, 58, 91, 93, 125] @
               [1, 0, 0, 0, 1, 0, 0, 0, 102, 7]))],
      cwd = [], changes = []\<rparr>) = Inl NoFilesInArchive \<and>
   gunzipSync (runtime (js ''T''))
     ([31, 139] @ [12, 0, 0, 0] @ [123, 34, 102, 105, 108, 101, 115, 34, 58, 91, 93, 125] @
      [1, 0, 0, 0, 1, 0, 0, 0, 102, 7]) =
     Inr ([12, 0, 0, 0] @ [123, 34, 102, 105, 108, 101, 115, 34, 58, 91, 93, 125] @
          [1, 0, 0, 0, 1, 0, 0, 0, 102, 7]) \<and>
   readEntries (runtime (js ''T''))
     ([12, 0, 0, 0] @ [123, 34, 102, 105, 108, 101, 115, 34, 58, 91, 93, 125] @
      [1, 0, 0, 0, 1, 0, 0, 0, 102, 7]) 16 = Inr [(js ''f'', [7])]"
  unfolding example_empty_list_run example_empty_list_entries
  by (simp add: runtime_def)

subsection \<open>Errors of validation and the file system\<close>

lemma compressDirectory_validation:
  assumes "snd (compressDirectory P args directoryPath outputFile w) = Inl NotADirectory \<or>
           snd (compressDirectory P args directoryPath outputFile w) = Inl NoFilesFound"
  shows "fst (compressDirectory P args directoryPath outputFile w) = w"
  using assms
  by (auto simp: compressDirectory_def Let_def split: sum.splits prod.splits if_splits)

lemma readMetadata_not_a_file: "readMetadata P decompressed \<noteq> Inl NotAFile"
  by (auto simp: readMetadata_def Let_def split: sum.splits if_splits)

lemma uncompressArchive_not_a_file:
  assumes "snd (uncompressArchive P archivePath outputDir w) = Inl NotAFile"
  shows "fst (uncompressArchive P archivePath outputDir w) = w"
  using assms readMetadata_not_a_file
  by (auto simp: uncompressArchive_def split: sum.splits prod.splits if_splits)

text \<open>
  Claim C9, as the code has it.  When \<open>compressDirectory\<close> ends because the path is
  not a directory or because no files were found, and when \<open>uncompressArchive\<close> ends
  because the path is not a file, the world is as it was.  When \<open>uncompressArchive\<close>
  ends because the archive lists no files, no file has been written, and the world is
  the one left by making sure that the output directory exists: the directory has
  been created if it was missing.
\<close>

theorem validation_errors_and_changes:
  "(snd (compressDirectory P args directoryPath outputFile w) = Inl NotADirectory \<or>
    snd (compressDirectory P args directoryPath outputFile w) = Inl NoFilesFound \<longrightarrow>
      fst (compressDirectory P args directoryPath outputFile w) = w) \<and>
   (snd (uncompressArchive P archivePath outputDir w) = Inl NotAFile \<longrightarrow>
      fst (uncompressArchive P archivePath outputDir w) = w) \<and>
   (snd (uncompressArchive P archivePath outputDir w) = Inl NoFilesInArchive \<longrightarrow>
      fst (uncompressArchive P archivePath outputDir w) =
        fst (ensureDirectoryExists (outputDirOf archivePath outputDir) w) \<and>
      writes (changes (fst (uncompressArchive P archivePath outputDir w))) = writes (changes w))"
proof -
  have "writes (changes (fst (ensureDirectoryExists dirPath w))) = writes (changes w)" for dirPath
    using ensureDirectoryExists_result [of dirPath w] by (cases "ensureDirectoryExists dirPath w") simp
  then show ?thesis
    using compressDirectory_validation uncompressArchive_not_a_file uncompressArchive_empty_world
    by metis
qed

text \<open>
  A file where a directory is expected, an empty directory, a directory where an
  archive is expected, and an archive that lists no files.
\<close>

theorem validation_errors_and_changes_witness:
  "fst (compressDirectory (runtime (js ''T'')) [] (js ''f'') None
          \<lparr>root = Dir [(js ''f'', File []), (js ''d'', Dir [])], cwd = [], changes = []\<rparr>) =
     \<lparr>root = Dir [(js ''f'', File []), (js ''d'', Dir [])], cwd = [], changes = []\<rparr> \<and>
   fst (compressDirectory (runtime (js ''T'')) [] (js ''d'') None
          \<lparr>root = Dir [(js ''f'', File []), (js ''d'', Dir [])], cwd = [], changes = []\<rparr>) =
     \<lparr>root = Dir [(js ''f'', File []), (js ''d'', Dir [])], cwd = [], changes = []\<rparr> \<and>
   fst (uncompressArchive (runtime (js ''T'')) (js ''d'') None
          \<lparr>root = Dir [(js ''f'', File []), (js ''d'', Dir [])], cwd = [], changes = []\<rparr>) =
     \<lparr>root = Dir [(js ''f'', File []), (js ''d'', Dir [])], cwd = [], changes = []\<rparr> \<and>
   writes (changes (fst (uncompressArchive (runtime (js ''T'')) (js ''a.bunz'') (Some (js ''out''))
     \<lparr>root = Dir [(js ''a.bunz'',
         File ([31, 139] @ [12, 0, 0, 0] @ [123, 34, 102, 105, 108, 101, 115, 34, 58, 91, 93, 125] @
               [1, 0, 0, 0, 1, 0, 0, 0, 102, 7]))],
      cwd = [], changes = []\<rparr>))) = []"
proof -
  let ?w = "\<lparr>root = Dir [(js ''f'', File []), (js ''d'', Dir [])], cwd = [], changes = []\<rparr>"
  let ?P = "runtime (js ''T'')"
  have a: "snd (compressDirectory ?P [] (js ''f'') None ?w) = Inl NotADirectory"
    by (simp add: compressDirectory_def eval_fs js_def)
  have b: "snd (compressDirectory ?P [] (js ''d'') None ?w) = Inl NoFilesFound"
    by (simp add: compressDirectory_def readFilesRecursively_def Object_keys_def eval_fs js_def)
  have c: "snd (uncompressArchive ?P (js ''d'') None ?w) = Inl NotAFile"
    by (simp add: uncompressArchive_def eval_fs js_def)
  have d: "snd (uncompressArchive (runtime (js ''T'')) (js ''a.bunz'') (Some (js ''out''))
     \<lparr>root = Dir [(js ''a.bunz'',
         File ([31, 139] @ [12, 0, 0, 0] @ [123, 34, 102, 105, 108, 101, 115, 34, 58, 91, 93, 125] @
               [1, 0, 0, 0, 1, 0, 0, 0, 102, 7]))],
      cwd = [], changes = []\<rparr>) = Inl NoFilesInArchive"
    unfolding example_empty_list_run by simp
  from validation_errors_and_changes [of ?P "[]" "js ''f''" None ?w "js ''d''" None] a c
  have p1: "fst (compressDirectory ?P [] (js ''f'') None ?w) = ?w"
    and p3: "fst (uncompressArchive ?P (js ''d'') None ?w) = ?w"
    by blast+
  from validation_errors_and_changes [of ?P "[]" "js ''d''" None ?w "js ''d''" None] b
  have p2: "fst (compressDirectory ?P [] (js ''d'') None ?w) = ?w"
    by blast
  from validation_errors_and_changes [of ?P "[]" "js ''f''" None _ "js ''a.bunz''" "Some (js ''out'')"] d
  have p4: "writes (changes (fst (uncompressArchive (runtime (js ''T'')) (js ''a.bunz'') (Some (js ''out''))
     \<lparr>root = Dir [(js ''a.bunz'',
         File ([31, 139] @ [12, 0, 0, 0] @ [123, 34, 102, 105, 108, 101, 115, 34, 58, 91, 93, 125] @
               [1, 0, 0, 0, 1, 0, 0, 0, 102, 7]))],
      cwd = [], changes = []\<rparr>))) =
      writes (changes \<lparr>root = Dir [(js ''a.bunz'',
         File ([31, 139] @ [12, 0, 0, 0] @ [123, 34, 102, 105, 108, 101, 115, 34, 58, 91, 93, 125] @
               [1, 0, 0, 0, 1, 0, 0, 0, 102, 7]))],
      cwd = [], changes = []\<rparr>)"
    by blast
  have p4': "writes (changes \<lparr>root = r, cwd = [], changes = []\<rparr>) = []" for r
    by simp
  show ?thesis
    using p1 p2 p3 p4 [unfolded p4'] by (intro conjI)
qed

text \<open>
  Claim C9 as stated fails: the run on the archive that lists no files ends with the
  error for an empty archive after it has created the output directory.
\<close>

theorem empty_archive_error_after_mkdir:
  "snd (uncompressArchive (runtime (js ''T'')) (js ''a.bunz'') (Some (js ''out''))
     \<lparr>root = Dir [(js ''a.bunz'',
         File ([31, 139] @ [12, 0, 0, 0] @ [123, 34, 102, 105, 108, 101, 115, 34, 58, 91, 93, 125] @
               [1, 0, 0, 0, 1, 0, 0, 0, 102, 7]))],
      cwd = [], changes = []\<rparr>) = Inl NoFilesInArchive \<and>
   changes (fst (uncompressArchive (runtime (js ''T'')) (js ''a.bunz'') (Some (js ''out''))
     \<lparr>root = Dir [(js ''a.bunz'',
         File ([31, 139] @ [12, 0, 0, 0] @ [123, 34, 102, 105, 108, 101, 115, 34, 58, 91, 93, 125] @
               [1, 0, 0, 0, 1, 0, 0, 0, 102, 7]))],
      cwd = [], changes = []\<rparr>)) = [Mkdir (js ''out'')] \<and>
   lookup (root (fst (uncompressArchive (runtime (js ''T'')) (js ''a.bunz'') (Some (js ''out''))
     \<lparr>root = Dir [(js ''a.bunz'',
         File ([31, 139] @ [12, 0, 0, 0] @ [123, 34, 102, 105, 108, 101, 115, 34, 58, 91, 93, 125] @
               [1, 0, 0, 0, 1, 0, 0, 0, 102, 7]))],
      cwd = [], changes = []\<rparr>))) [js ''out''] = Some (Dir []) \<and>
   lookup (Dir [(js ''a.bunz'',
         File ([31, 139] @ [12, 0, 0, 0] @ [123, 34, 102, 105, 108, 101, 115, 34, 58, 91, 93, 125] @
               [1, 0, 0, 0, 1, 0, 0, 0, 102, 7]))]) [js ''out''] = None"
  unfolding example_empty_list_run by (simp add: js_def)

subsection \<open>The metadata and the extraction\<close>

lemma extractFiles_shift:
  "extractFiles P outputDir (pre @ stream) (length pre + j) extracted w =
   extractFiles P outputDir stream j extracted w"
proof (induction P outputDir stream j extracted w rule: extractFiles.induct)
  case (1 P outputDir stream j extracted w)
  show ?case
  proof (cases "j < length stream")
    case False
    then show ?thesis
      by (subst extractFiles.simps, subst (2) extractFiles.simps) simp
  next
    case True
    show ?thesis
    proof (cases "readEntry P stream j")
      case (Inl e)
      then show ?thesis
        using True by (subst extractFiles.simps, subst (2) extractFiles.simps) (simp add: readEntry_shift)
    next
      case (Inr entry)
      then obtain path content j' where entry: "readEntry P stream j = Inr (path, content, j')"
        by (cases entry) auto
      show ?thesis
      proof (cases "ensureDirectoryExists (dirname (join [outputDir, path])) w")
        case (Pair w1 r1)
        show ?thesis
        proof (cases "writeFileSync (join [outputDir, path]) content w1")
          case wr: (Pair w2 r2)
          show ?thesis
          proof (cases "r1 = Inr () \<and> r2 = Inr ()")
            case False
            then show ?thesis
              using True entry Pair wr
              by (subst extractFiles.simps, subst (2) extractFiles.simps)
                 (auto simp: readEntry_shift Let_def split: sum.splits)
          next
            case ok: True
            have "extractFiles P outputDir (pre @ stream) (length pre + j') (extracted + length content) w2 =
                  extractFiles P outputDir stream j' (extracted + length content) w2"
              using ok by (intro "1.IH" [OF True entry refl refl refl refl Pair [symmetric] _ wr [symmetric]]) simp_all
            then show ?thesis
              using True entry Pair wr ok
              by (subst extractFiles.simps, subst (2) extractFiles.simps)
                 (simp add: readEntry_shift Let_def)
          qed
        qed
      qed
    qed
  qed
qed

text \<open>
  A new entry in a directory leaves every regular file as it is and every directory
  a directory, and so does \<open>mkdir_walk\<close>; a path that led somewhere before leads to
  the same location after.
\<close>

lemma lookup_put:
  assumes "lookup r cur = Some (Dir es)" and "map_of es name = None"
  shows "(lookup r location = Some (File c) \<longrightarrow> lookup (put r cur name n) location = Some (File c)) \<and>
         (lookup r location = Some (Dir ds) \<longrightarrow> (\<exists>ds'. lookup (put r cur name n) location = Some (Dir ds')))"
  using assms
proof (induction r cur name n arbitrary: location ds rule: put.induct)
  case (1 es0 name n)
  then have es: "es0 = es" by simp
  show ?case
  proof (cases location)
    case Nil
    then show ?thesis by simp
  next
    case (Cons t ts)
    then show ?thesis
      using "1.prems"(2) by (cases "t = name") (simp_all add: es update_conv')
  qed
next
  case (2 es0 s ss name n)
  from "2.prems"(1) obtain d where d: "map_of es0 s = Some d" and l: "lookup d ss = Some (Dir es)"
    by (auto split: option.splits)
  show ?case
  proof (cases location)
    case Nil
    then show ?thesis using d by (auto split: option.splits)
  next
    case (Cons t ts)
    show ?thesis
    proof (cases "t = s")
      case True
      from "2.IH" [OF d l "2.prems"(2), of ts ds] show ?thesis
        by (simp add: Cons True d update_conv')
    next
      case False
      then show ?thesis by (simp add: Cons d update_conv')
    qed
  qed
next
  case (3 c0 cur name n)
  then show ?case by (cases cur) simp_all
qed

lemma lookup_mkdir_walk:
  assumes "mkdir_walk r cur segs = Inr r'"
  shows "(lookup r location = Some (File c) \<longrightarrow> lookup r' location = Some (File c)) \<and>
         (lookup r location = Some (Dir ds) \<longrightarrow> (\<exists>ds'. lookup r' location = Some (Dir ds')))"
  using assms
proof (induction r cur segs arbitrary: location ds rule: mkdir_walk.induct)
  case (1 r cur)
  then show ?case by (auto split: option.splits node.splits)
next
  case (2 r cur s ss)
  from "2.prems" obtain es where es: "lookup r cur = Some (Dir es)"
    by (auto split: option.splits node.splits)
  consider (skip) "s = [] \<or> s = [CHAR_DOT]" | (up) "\<not> (s = [] \<or> s = [CHAR_DOT])" "s = [CHAR_DOT, CHAR_DOT]"
    | (there) n where "\<not> (s = [] \<or> s = [CHAR_DOT])" "s \<noteq> [CHAR_DOT, CHAR_DOT]" "map_of es s = Some n"
    | (new) "\<not> (s = [] \<or> s = [CHAR_DOT])" "s \<noteq> [CHAR_DOT, CHAR_DOT]" "map_of es s = None"
    by (cases "map_of es s") auto
  then show ?case
  proof cases
    case skip
    with "2.prems" es have "mkdir_walk r cur ss = Inr r'" by simp
    from "2.IH"(1) [OF es refl skip this] show ?thesis .
  next
    case up
    with "2.prems" es have "mkdir_walk r (butlast cur) ss = Inr r'" by simp
    from "2.IH"(2) [OF es refl up this] show ?thesis .
  next
    case there
    with "2.prems" es have "mkdir_walk r (cur @ [s]) ss = Inr r'" by simp
    from "2.IH"(4) [OF es refl there this] show ?thesis .
  next
    case new
    with "2.prems" es have "mkdir_walk (put r cur s (Dir [])) (cur @ [s]) ss = Inr r'" by simp
    from "2.IH"(3) [OF es refl new this] lookup_put [OF es new(3), of location c "Dir []"]
      lookup_put [OF es new(3), of location _ "Dir []" ds]
    show ?thesis by (metis (no_types))
  qed
qed

lemma walk_after:
  assumes "\<And>location ds. lookup r location = Some (Dir ds) \<Longrightarrow> \<exists>ds'. lookup r' location = Some (Dir ds')"
  shows "walk r cur segs = Inr location \<Longrightarrow> walk r' cur segs = Inr location"
proof (induction segs arbitrary: cur)
  case Nil
  then show ?case by simp
next
  case (Cons s ss)
  from Cons.prems obtain es where es: "lookup r cur = Some (Dir es)"
    by (auto split: option.splits node.splits)
  from assms [OF es] obtain es' where es': "lookup r' cur = Some (Dir es')" ..
  from Cons.prems es have "walk r (if s = [] \<or> s = [CHAR_DOT] then cur
                  else if s = [CHAR_DOT, CHAR_DOT] then butlast cur
                  else cur @ [s]) ss = Inr location"
    by simp
  from Cons.IH [OF this] show ?case
    by (simp add: es')
qed

lemma stat_after_mkdir:
  assumes "stat w path = Inr (File c)"
    and "mkdir_walk (root w) cur segs = Inr r'"
  shows "stat (w\<lparr>root := r', changes := ops\<rparr>) path = Inr (File c)"
proof -
  from assms(1) obtain location where
    loc: "walk (root w) (start w path) (split_on CHAR_FORWARD_SLASH path) = Inr location"
    and ne: "path \<noteq> []" and f: "lookup (root w) location = Some (File c)"
    by (auto simp: stat_def locate_def split: sum.splits option.splits if_splits)
  have dirs: "\<exists>ds'. lookup r' l = Some (Dir ds')" if "lookup (root w) l = Some (Dir ds)" for l ds
    using lookup_mkdir_walk [OF assms(2), of l _ ds] that by simp
  have "walk r' (start w path) (split_on CHAR_FORWARD_SLASH path) = Inr location"
    by (rule walk_after [OF dirs loc])
  moreover have "lookup r' location = Some (File c)"
    using lookup_mkdir_walk [OF assms(2), of location c] f by simp
  moreover have "start (w\<lparr>root := r', changes := ops\<rparr>) path = start w path"
    by (simp add: start_def)
  ultimately show ?thesis
    using ne by (simp add: stat_def locate_def)
qed

lemma readFileSync_stat:
  "readFileSync w path = Inr c \<longleftrightarrow> stat w path = Inr (File c)"
  by (auto simp: readFileSync_def split: sum.splits node.splits)

lemma readFileSync_after_ensure:
  assumes "readFileSync w path = Inr c" and "ensureDirectoryExists dirPath w = (w1, r)"
  shows "readFileSync w1 path = Inr c"
proof (cases "w1 = w")
  case True
  then show ?thesis using assms by simp
next
  case False
  with assms(2) obtain t where
    t: "mkdir_walk (root w) (start w dirPath) (split_on CHAR_FORWARD_SLASH dirPath) = Inr t"
    and w1: "w1 = w\<lparr>root := t, changes := changes w @ [Mkdir dirPath]\<rparr>"
    by (auto simp: ensureDirectoryExists_def mkdirSync_def split: if_splits sum.splits)
  from assms(1) have "stat w path = Inr (File c)"
    by (simp add: readFileSync_stat)
  from stat_after_mkdir [OF this t] show ?thesis
    by (simp add: readFileSync_stat w1)
qed

lemma uncompressArchive_stream:
  assumes "readFileSync w archivePath = Inr archiveData"
    and "gunzipSync P archiveData = Inr (Uint32_bytes (length m) @ m @ stream)"
    and "length m < 2 ^ 32"
    and "JSON_parse P (uint8ArrayToText P m) = Inr metadata"
    and "property metadata (js ''files'') = Inr (Some (JArr (x # xs)))"
    and "outputDir \<noteq> []"
  shows "uncompressArchive P archivePath (Some outputDir) w =
           (case ensureDirectoryExists outputDir w of
              (w1, Inl e) \<Rightarrow> (w1, Inl (Caught e))
            | (w1, Inr u) \<Rightarrow>
                (case extractFiles P outputDir stream 0 0 w1 of
                   (w2, Inl e) \<Rightarrow> (w2, Inl (Caught e))
                 | (w2, Inr extracted) \<Rightarrow>
                     (w2, Inr \<lparr>reportedFiles = Suc (length xs), reportedSize = extracted\<rparr>)))"
proof -
  have out: "outputDirOf archivePath (Some outputDir) = outputDir"
    using assms(6) by (simp add: outputDirOf_def)
  have md: "readMetadata P (Uint32_bytes (length m) @ m @ stream) = Inr (length m, Suc (length xs))"
    by (simp add: readMetadata_head [OF assms(3)] assms(4,5))
  have shift: "extractFiles P outputDir (Uint32_bytes (length m) @ m @ stream) (4 + length m) 0 w1 =
               extractFiles P outputDir stream 0 0 w1" for w1
    using extractFiles_shift [of P outputDir "Uint32_bytes (length m) @ m" stream 0 0 w1]
    by (simp add: length_Uint32_bytes)
  show ?thesis
  proof (cases "ensureDirectoryExists outputDir w")
    case (Pair w1 r)
    have "readFileSync w1 archivePath = Inr archiveData"
      by (rule readFileSync_after_ensure [OF assms(1) Pair])
    then show ?thesis
      using assms(1) [unfolded readFileSync_stat] Pair
      by (simp add: uncompressArchive_def out assms(2) md shift split: sum.splits)
  qed
qed

text \<open>
  Claim C5.  Take two archives whose containers hold the same entry stream behind
  metadata that may differ, each with metadata that parse to a value with a non-empty
  \<^verbatim>\<open>files\<close> array.  Unpacked into the same output directory from the same world, the
  two leave the same world, hence the same files with the same contents; both fail
  with the same exception or both succeed with the same extracted size.
\<close>

theorem extraction_independent_of_metadata:
  assumes "readFileSync w archivePath1 = Inr archiveData1"
    and "readFileSync w archivePath2 = Inr archiveData2"
    and "gunzipSync P archiveData1 = Inr (Uint32_bytes (length m1) @ m1 @ stream)"
    and "gunzipSync P archiveData2 = Inr (Uint32_bytes (length m2) @ m2 @ stream)"
    and "length m1 < 2 ^ 32" and "length m2 < 2 ^ 32"
    and "JSON_parse P (uint8ArrayToText P m1) = Inr metadata1"
    and "JSON_parse P (uint8ArrayToText P m2) = Inr metadata2"
    and "property metadata1 (js ''files'') = Inr (Some (JArr (x1 # xs1)))"
    and "property metadata2 (js ''files'') = Inr (Some (JArr (x2 # xs2)))"
    and "outputDir \<noteq> []"
  shows "fst (uncompressArchive P archivePath1 (Some outputDir) w) =
         fst (uncompressArchive P archivePath2 (Some outputDir) w) \<and>
         map_sum id reportedSize (snd (uncompressArchive P archivePath1 (Some outputDir) w)) =
         map_sum id reportedSize (snd (uncompressArchive P archivePath2 (Some outputDir) w)) \<and>
         writes (changes (fst (uncompressArchive P archivePath1 (Some outputDir) w))) =
         writes (changes (fst (uncompressArchive P archivePath2 (Some outputDir) w)))"
  unfolding uncompressArchive_stream [OF assms(1,3,5,7,9,11)]
    uncompressArchive_stream [OF assms(2,4,6,8,10,11)]
  by (auto split: prod.splits sum.splits)

text \<open>
  Two archives in one directory: the metadata of the first list one file, those of the
  second list two, and both hold the same single entry.
\<close>

theorem extraction_independent_of_metadata_witness:
  "fst (uncompressArchive (runtime (js ''T'')) (js ''a1'') (Some (js ''out''))
     \<lparr>root = Dir [(js ''a1'', File ([31, 139] @ [13, 0, 0, 0] @
                      [123, 34, 102, 105, 108, 101, 115, 34, 58, 91, 49, 93, 125] @
                      [1, 0, 0, 0, 1, 0, 0, 0, 102, 7])),
                  (js ''a2'', File ([31, 139] @ [15, 0, 0, 0] @
                      [123, 34, 102, 105, 108, 101, 115, 34, 58, 91, 49, 44, 50, 93, 125] @
                      [1, 0, 0, 0, 1, 0, 0, 0, 102, 7]))],
      cwd = [], changes = []\<rparr>) =
   fst (uncompressArchive (runtime (js ''T'')) (js ''a2'') (Some (js ''out''))
     \<lparr>root = Dir [(js ''a1'', File ([31, 139] @ [13, 0, 0, 0] @
                      [123, 34, 102, 105, 108, 101, 115, 34, 58, 91, 49, 93, 125] @
                      [1, 0, 0, 0, 1, 0, 0, 0, 102, 7])),
                  (js ''a2'', File ([31, 139] @ [15, 0, 0, 0] @
                      [123, 34, 102, 105, 108, 101, 115, 34, 58, 91, 49, 44, 50, 93, 125] @
                      [1, 0, 0, 0, 1, 0, 0, 0, 102, 7]))],
      cwd = [], changes = []\<rparr>)"
proof -
  let ?P = "runtime (js ''T'')"
  let ?m1 = "[123, 34, 102, 105, 108, 101, 115, 34, 58, 91, 49, 93, 125] :: bytes"
  let ?m2 = "[123, 34, 102, 105, 108, 101, 115, 34, 58, 91, 49, 44, 50, 93, 125] :: bytes"
  let ?stream = "[1, 0, 0, 0, 1, 0, 0, 0, 102, 7] :: bytes"
  let ?w = "\<lparr>root = Dir [(js ''a1'', File ([31, 139] @ [13, 0, 0, 0] @ ?m1 @ ?stream)),
                         (js ''a2'', File ([31, 139] @ [15, 0, 0, 0] @ ?m2 @ ?stream))],
             cwd = [], changes = []\<rparr>"
  have r1: "readFileSync ?w (js ''a1'') = Inr ([31, 139] @ [13, 0, 0, 0] @ ?m1 @ ?stream)"
    and r2: "readFileSync ?w (js ''a2'') = Inr ([31, 139] @ [15, 0, 0, 0] @ ?m2 @ ?stream)"
    by (simp_all add: eval_fs js_def)
  have g1: "gunzipSync ?P ([31, 139] @ [13, 0, 0, 0] @ ?m1 @ ?stream) =
            Inr (Uint32_bytes (length ?m1) @ ?m1 @ ?stream)"
    and g2: "gunzipSync ?P ([31, 139] @ [15, 0, 0, 0] @ ?m2 @ ?stream) =
            Inr (Uint32_bytes (length ?m2) @ ?m2 @ ?stream)"
    by (simp_all add: runtime_def Uint32_bytes_def ToUint32_def)
  have l1: "length ?m1 < 2 ^ 32" and l2: "length ?m2 < 2 ^ 32"
    by simp_all
  have p1: "JSON_parse ?P (uint8ArrayToText ?P ?m1) = Inr (JObj [(js ''files'', JArr [JNum 1 0])])"
    and p2: "JSON_parse ?P (uint8ArrayToText ?P ?m2) = Inr (JObj [(js ''files'', JArr [JNum 1 0, JNum 2 0])])"
    by (simp_all add: runtime_def eval_text eval_parse is_digit_def)
  have f1: "property (JObj [(js ''files'', JArr [JNum 1 0])]) (js ''files'') = Inr (Some (JArr (JNum 1 0 # [])))"
    and f2: "property (JObj [(js ''files'', JArr [JNum 1 0, JNum 2 0])]) (js ''files'') =
             Inr (Some (JArr (JNum 1 0 # [JNum 2 0])))"
    by simp_all
  have out: "js ''out'' \<noteq> []"
    by (simp add: js_def)
  from extraction_independent_of_metadata [OF r1 r2 g1 g2 l1 l2 p1 p2 f1 f2 out]
  show ?thesis by simp
qed

subsection \<open>Truncated containers\<close>

lemma readEntries_prefix:
  assumes "\<forall>k \<in> set ks. length (textToUint8Array P k) < 2 ^ 32 \<and> length (obj_get files k) < 2 ^ 32"
  shows "readEntries P (pre @ concat (map (entryBytes P files) ks) @ rest) (length pre) =
         (case readEntries P (pre @ concat (map (entryBytes P files) ks) @ rest)
                 (length pre + length (concat (map (entryBytes P files) ks))) of
            Inl e \<Rightarrow> Inl e
          | Inr entries \<Rightarrow>
              Inr (map (\<lambda>k. (uint8ArrayToText P (textToUint8Array P k), obj_get files k)) ks @ entries))"
  using assms
proof (induction ks arbitrary: pre)
  case Nil
  then show ?case by (simp split: sum.splits)
next
  case (Cons k ks)
  let ?pb = "textToUint8Array P k"
  let ?c = "obj_get files k"
  let ?tail = "concat (map (entryBytes P files) ks) @ rest"
  let ?buf = "pre @ concat (map (entryBytes P files) (k # ks)) @ rest"
  have buf: "?buf = pre @ Uint32_bytes (length ?pb) @ Uint32_bytes (length ?c) @ ?pb @ ?c @ ?tail"
    by (simp add: entryBytes_eq)
  have lt: "length pre < length ?buf"
    by (simp add: entryBytes_eq length_Uint32_bytes)
  have one: "readEntry P ?buf (length pre) =
             Inr (uint8ArrayToText P ?pb, ?c, length pre + 8 + length ?pb + length ?c)"
    unfolding buf using Cons.prems by (intro readEntry_at) simp_all
  have next_pre: "length pre + 8 + length ?pb + length ?c = length (pre @ entryBytes P files k)"
    by (simp add: entryBytes_eq length_Uint32_bytes)
  have buf': "?buf = (pre @ entryBytes P files k) @ concat (map (entryBytes P files) ks) @ rest"
    by simp
  have off: "length pre + length (concat (map (entryBytes P files) (k # ks))) =
             length (pre @ entryBytes P files k) + length (concat (map (entryBytes P files) ks))"
    by simp
  have ih: "readEntries P ?buf (length pre + 8 + length ?pb + length ?c) =
         (case readEntries P ?buf (length pre + length (concat (map (entryBytes P files) (k # ks)))) of
            Inl e \<Rightarrow> Inl e
          | Inr entries \<Rightarrow>
              Inr (map (\<lambda>k. (uint8ArrayToText P (textToUint8Array P k), obj_get files k)) ks @ entries))"
    unfolding next_pre off unfolding buf' using Cons.prems by (intro Cons.IH) simp
  have "readEntries P ?buf (length pre) =
        (case readEntries P ?buf (length pre + 8 + length ?pb + length ?c) of
           Inl e \<Rightarrow> Inl e
         | Inr entries \<Rightarrow> Inr ((uint8ArrayToText P ?pb, ?c) # entries))"
    by (subst readEntries.simps) (simp only: lt one if_True sum.case prod.case)
  then show ?case
    unfolding ih by (simp split: sum.splits)
qed

lemma readEntries_cut_header:
  assumes "0 < length part" and "length part < 8"
  shows "readEntries P (pre @ part) (length pre) = Inl RangeError"
  using assms by (subst readEntries.simps) (simp add: readEntry_def DataView_def)

lemma readEntries_cut_payload:
  assumes "length pb < 2 ^ 32" and "length c < 2 ^ 32" and "8 \<le> j"
  shows "readEntries P (pre @ take j (Uint32_bytes (length pb) @ Uint32_bytes (length c) @ pb @ c))
           (length pre) =
         Inr [(uint8ArrayToText P (take (j - 8) pb), take (j - 8 - length pb) c)]"
proof -
  let ?h = "Uint32_bytes (length pb) @ Uint32_bytes (length c)"
  define buf where "buf = pre @ take j (Uint32_bytes (length pb) @ Uint32_bytes (length c) @ pb @ c)"
  have cut: "buf = pre @ ?h @ take (j - 8) (pb @ c)"
    using assms(3) by (simp add: buf_def length_Uint32_bytes)
  have len: "length buf = length pre + 8 + min (j - 8) (length pb + length c)"
    unfolding cut by (simp add: length_Uint32_bytes min.commute)
  have view: "DataView buf (length pre) 8 = Inr ?h"
    unfolding cut by (simp add: DataView_def length_Uint32_bytes)
  have g0: "getUint32 ?h 0 = length pb"
    using assms(1) by (simp add: getUint32_Uint32_bytes)
  have g4: "getUint32 ?h 4 = length c"
    using assms(2) getUint32_second [of "length pb" "length c" "[]"] by simp
  have p: "subarray buf (length pre + 8) (length pre + 8 + length pb) = take (j - 8) pb"
    unfolding cut by (simp add: subarray_def length_Uint32_bytes min_def)
  have q: "subarray buf (length pre + 8 + length pb) (length pre + 8 + length pb + length c) =
           take (j - 8 - length pb) c"
    unfolding cut by (simp add: subarray_def length_Uint32_bytes min_def)
  have one: "readEntry P buf (length pre) =
             Inr (uint8ArrayToText P (take (j - 8) pb), take (j - 8 - length pb) c,
                  length pre + 8 + length pb + length c)"
    unfolding readEntry_def view by (simp only: g0 g4 p q Let_def sum.case)
  have lt: "length pre < length buf"
    unfolding len by simp
  have stop: "readEntries P buf (length pre + 8 + length pb + length c) = Inr []"
    by (rule readEntries_end) (simp add: len)
  have "readEntries P buf (length pre) =
        Inr [(uint8ArrayToText P (take (j - 8) pb), take (j - 8 - length pb) c)]"
    by (subst readEntries.simps) (simp only: lt one stop if_True sum.case prod.case)
  then show ?thesis
    unfolding buf_def .
qed

lemma decode_short: "n < 4 \<Longrightarrow> decode P (take n buffer) = Inl (Caught RangeError)"
  by (simp add: decode_def readMetadata_def DataView_def)

lemma decode_cut_metadata:
  assumes "length m < 2 ^ 32" and "4 \<le> n" and "n < 4 + length m"
    and "JSON_parse P (uint8ArrayToText P (take (n - 4) m)) = Inl e"
  shows "decode P (take n (Uint32_bytes (length m) @ m @ stream)) = Inl (Caught e)"
proof -
  define buf where "buf = take n (Uint32_bytes (length m) @ m @ stream)"
  have cut: "buf = Uint32_bytes (length m) @ take (n - 4) m"
    using assms(2,3) by (simp add: buf_def length_Uint32_bytes)
  have view: "DataView buf 0 4 = Inr (Uint32_bytes (length m))"
    unfolding cut by (simp add: DataView_def length_Uint32_bytes)
  have len: "getUint32 (Uint32_bytes (length m)) 0 = length m"
    using assms(1) getUint32_Uint32_bytes [of "length m" "[]"] by simp
  have sub: "subarray buf 4 (4 + length m) = take (n - 4) m"
    unfolding cut using assms(3) by (simp add: subarray_def length_Uint32_bytes)
  have "readMetadata P buf = Inl (Caught e)"
    unfolding readMetadata_def view by (simp add: len sub assms(4) Let_def)
  then show ?thesis
    unfolding buf_def [symmetric] by (simp add: decode_def)
qed

lemma take_in_cuts: "n < length bs \<Longrightarrow> take n bs \<in> set (cuts bs)"
proof (induction bs arbitrary: n)
  case Nil
  then show ?case by simp
next
  case (Cons b bs)
  then show ?case by (cases n) auto
qed

text \<open>
  Claim C2, as the code has it.  Take a container built by \<open>compressDirectory\<close>, on
  a runtime whose typed arrays hold at most \<open>2\<^sup>3\<^sup>2\<close> bytes and whose JSON parser
  reads the metadata back and rejects them when they are cut.  A buffer of fewer than
  four bytes is rejected with a \<^verbatim>\<open>RangeError\<close>, and a cut inside the metadata is
  rejected with the \<^verbatim>\<open>SyntaxError\<close> of the parser.  Behind the metadata, let the cut
  fall \<open>j\<close> bytes into the entry of \<open>path\<close>.  If it leaves one to seven bytes of the
  header of the entry, decoding fails with a \<^verbatim>\<open>RangeError\<close>.  If it falls between two
  entries, decoding succeeds with the entries before the cut.  If it falls behind the
  header, inside the path or the content, decoding succeeds: the entries before are
  followed by the cut entry, whose path and content are clamped to the bytes that are
  left.
\<close>

theorem decode_truncated:
  assumes "files \<noteq> []"
    and "finalBuffer P files = Inr buffer" and "maxByteLength P \<le> 2 ^ 32"
    and "JSON_parse P (uint8ArrayToText P (metadataBuffer P files)) = Inr (archive P files)"
    and "\<forall>n < length (metadataBuffer P files).
           JSON_parse P (uint8ArrayToText P (take n (metadataBuffer P files))) = Inl SyntaxError"
    and "sort (Object_keys files) = earlier @ path # later"
    and "j < length (entryBytes P files path)"
  shows "(\<forall>n<4. decode P (take n buffer) = Inl (Caught RangeError))
         \<and> (\<forall>n. 4 \<le> n \<and> n < 4 + length (metadataBuffer P files) \<longrightarrow>
                decode P (take n buffer) = Inl (Caught SyntaxError))
         \<and> decode P (take (4 + length (metadataBuffer P files) +
                           length (concat (map (entryBytes P files) earlier)) + j) buffer) =
           (if j = 0 then
              Inr (map (\<lambda>k. (uint8ArrayToText P (textToUint8Array P k), obj_get files k)) earlier)
            else if j < 8 then Inl (Caught RangeError)
            else
              Inr (map (\<lambda>k. (uint8ArrayToText P (textToUint8Array P k), obj_get files k)) earlier @
                   [(uint8ArrayToText P (take (j - 8) (textToUint8Array P path)),
                     take (j - 8 - length (textToUint8Array P path)) (obj_get files path))]))"
proof -
  let ?m = "metadataBuffer P files"
  let ?head = "Uint32_bytes (length ?m) @ ?m"
  let ?s1 = "concat (map (entryBytes P files) earlier)"
  let ?e = "entryBytes P files path"
  let ?s2 = "concat (map (entryBytes P files) later)"
  let ?entries = "map (\<lambda>k. (uint8ArrayToText P (textToUint8Array P k), obj_get files k)) earlier"
  define buf where "buf = ?head @ ?s1 @ take j ?e"
  from assms(2,3) have fits: "length (concat (allBuffers P files)) \<le> 2 ^ 32"
    and buffer: "buffer = concat (allBuffers P files)"
    by (simp_all add: finalBuffer_Inr)
  note small = lengths_in_container(1) [OF fits]
  have whole: "buffer = ?head @ ?s1 @ ?e @ ?s2"
    by (simp add: buffer allBuffers_eq assms(6))
  have cut: "take (4 + length ?m + length ?s1 + j) buffer = buf"
    unfolding whole buf_def using assms(7) by (simp add: length_Uint32_bytes)
  have sizes: "\<forall>k \<in> set earlier. length (textToUint8Array P k) < 2 ^ 32 \<and> length (obj_get files k) < 2 ^ 32"
    and size: "length (textToUint8Array P path) < 2 ^ 32 \<and> length (obj_get files path) < 2 ^ 32"
  proof -
    have keys: "k \<in> set (Object_keys files)" if "k \<in> set (earlier @ path # later)" for k
      using that unfolding assms(6) [symmetric] by simp
    show "\<forall>k \<in> set earlier. length (textToUint8Array P k) < 2 ^ 32 \<and> length (obj_get files k) < 2 ^ 32"
      using lengths_in_container(2) [OF fits keys] by simp
    show "length (textToUint8Array P path) < 2 ^ 32 \<and> length (obj_get files path) < 2 ^ 32"
      using lengths_in_container(2) [OF fits keys] by simp
  qed
  have md: "readMetadata P buf = Inr (length ?m, length files)"
    using assms(1) readMetadata_head [OF small, of P "?s1 @ take j ?e"]
    by (simp add: buf_def assms(4) property_archive length_Object_keys)
  have len_head: "length ?head = 4 + length ?m"
    by (simp add: length_Uint32_bytes)
  have first: "readEntries P buf (4 + length ?m) =
        (case readEntries P buf (4 + length ?m + length ?s1) of
           Inl e \<Rightarrow> Inl e
         | Inr entries \<Rightarrow> Inr (?entries @ entries))"
    using readEntries_prefix [OF sizes, of ?head "take j ?e"]
    unfolding len_head buf_def by simp
  have len_pre: "length (?head @ ?s1) = 4 + length ?m + length ?s1"
    by (simp add: length_Uint32_bytes)
  have buf': "buf = (?head @ ?s1) @ take j ?e"
    by (simp add: buf_def)
  have last: "readEntries P buf (4 + length ?m + length ?s1) =
        (if j = 0 then Inr []
         else if j < 8 then Inl RangeError
         else Inr [(uint8ArrayToText P (take (j - 8) (textToUint8Array P path)),
                    take (j - 8 - length (textToUint8Array P path)) (obj_get files path))])"
  proof (cases "j = 0")
    case True
    then show ?thesis
      by (simp add: readEntries_end buf_def length_Uint32_bytes)
  next
    case False
    show ?thesis
    proof (cases "j < 8")
      case True
      have "readEntries P ((?head @ ?s1) @ take j ?e) (length (?head @ ?s1)) = Inl RangeError"
        using False True assms(7) by (intro readEntries_cut_header) simp_all
      then show ?thesis
        unfolding len_pre buf' [symmetric] using False True by simp
    next
      case far: False
      have "readEntries P ((?head @ ?s1) @ take j ?e) (length (?head @ ?s1)) =
            Inr [(uint8ArrayToText P (take (j - 8) (textToUint8Array P path)),
                  take (j - 8 - length (textToUint8Array P path)) (obj_get files path))]"
        unfolding entryBytes_eq using size far by (intro readEntries_cut_payload) simp_all
      then show ?thesis
        unfolding len_pre buf' [symmetric] using False far by simp
    qed
  qed
  have entries: "decode P buf =
           (if j = 0 then Inr ?entries
            else if j < 8 then Inl (Caught RangeError)
            else
              Inr (?entries @
                   [(uint8ArrayToText P (take (j - 8) (textToUint8Array P path)),
                     take (j - 8 - length (textToUint8Array P path)) (obj_get files path))]))"
    by (simp add: decode_def md first last)
  have metadata: "decode P (take n buffer) = Inl (Caught SyntaxError)"
    if "4 \<le> n \<and> n < 4 + length ?m" for n
  proof -
    from that have "n - 4 < length ?m" by arith
    with assms(5) have "JSON_parse P (uint8ArrayToText P (take (n - 4) ?m)) = Inl SyntaxError"
      by blast
    from decode_cut_metadata [OF small _ _ this, of "?s1 @ ?e @ ?s2"] that show ?thesis
      unfolding whole by simp
  qed
  from entries metadata show ?thesis
    unfolding cut by (simp add: decode_short)
qed

lemma example_one_file_metadata:
  "metadataBuffer (runtime (js ''T'')) [(js ''a'', [1, 2, 3])] =
     [123, 34, 118, 101, 114, 115, 105, 111, 110, 34, 58, 34, 49, 46, 48, 34, 44, 34, 99, 114, 101,
      97, 116, 101, 100, 34, 58, 34, 84, 34, 44, 34, 102, 105, 108, 101, 115, 34, 58, 91, 123, 34,
      112, 97, 116, 104, 34, 58, 34, 97, 34, 44, 34, 115, 105, 122, 101, 34, 58, 51, 125, 93, 125]"
  by (simp add: metadataBuffer_def runtime_def eval_stringify eval_text)

lemma example_one_file_parsed:
  "JSON_parse (runtime (js ''T''))
     (uint8ArrayToText (runtime (js ''T'')) (metadataBuffer (runtime (js ''T'')) [(js ''a'', [1, 2, 3])])) =
   Inr (archive (runtime (js ''T'')) [(js ''a'', [1, 2, 3])])"
  by (simp add: metadataBuffer_def runtime_def eval_stringify eval_text eval_parse)

lemma example_one_file_cuts:
  "\<forall>m \<in> set (cuts (metadataBuffer (runtime (js ''T'')) [(js ''a'', [1, 2, 3])])).
     JSON_parse (runtime (js ''T'')) (uint8ArrayToText (runtime (js ''T'')) m) = Inl SyntaxError"
  unfolding example_one_file_metadata
  by (simp add: runtime_def eval_text eval_parse is_digit_def)

lemma example_one_file_built:
  "finalBuffer (runtime (js ''T'')) [(js ''a'', [1, 2, 3])] =
     Inr (concat (allBuffers (runtime (js ''T'')) [(js ''a'', [1, 2, 3])]))"
proof -
  let ?P = "runtime (js ''T'')"
  have "length (concat (map (entryBytes ?P [(js ''a'', [1, 2, 3])])
                 (sort (Object_keys [(js ''a'', [1, 2, 3 :: byte])])))) = 12"
    by (simp add: Object_keys_def is_array_index_def is_digit_def entryBytes_eq length_Uint32_bytes
        runtime_def eval_text obj_get_def)
  then have "length (concat (allBuffers ?P [(js ''a'', [1, 2, 3])])) = 79"
    unfolding length_container example_one_file_length by simp
  then show ?thesis
    by (simp add: finalBuffer_Inr runtime_def)
qed

text \<open>
  A container with the single file \<^verbatim>\<open>a\<close> of three bytes, cut inside the metadata,
  between the metadata and the entry, three bytes into the header of the entry, and
  two bytes before the end.
\<close>

theorem decode_truncated_witness:
  "decode (runtime (js ''T''))
     (take 40 (concat (allBuffers (runtime (js ''T'')) [(js ''a'', [1, 2, 3])]))) =
     Inl (Caught SyntaxError) \<and>
   decode (runtime (js ''T''))
     (take 67 (concat (allBuffers (runtime (js ''T'')) [(js ''a'', [1, 2, 3])]))) = Inr [] \<and>
   decode (runtime (js ''T''))
     (take 70 (concat (allBuffers (runtime (js ''T'')) [(js ''a'', [1, 2, 3])]))) =
     Inl (Caught RangeError) \<and>
   decode (runtime (js ''T''))
     (take 77 (concat (allBuffers (runtime (js ''T'')) [(js ''a'', [1, 2, 3])]))) =
     Inr [(js ''a'', [1])]"
proof -
  let ?P = "runtime (js ''T'')"
  let ?files = "[(js ''a'', [1, 2, 3 :: byte])]"
  have nonempty: "?files \<noteq> []"
    by simp
  have cap: "maxByteLength ?P \<le> 2 ^ 32"
    by (simp add: runtime_def)
  have rejected: "\<forall>n < length (metadataBuffer ?P ?files).
           JSON_parse ?P (uint8ArrayToText ?P (take n (metadataBuffer ?P ?files))) = Inl SyntaxError"
    using example_one_file_cuts take_in_cuts by blast
  have order: "sort (Object_keys ?files) = [] @ js ''a'' # []"
    by (simp add: Object_keys_def is_array_index_def is_digit_def js_def)
  have entry: "entryBytes ?P ?files (js ''a'') = [1, 0, 0, 0, 3, 0, 0, 0, 97, 1, 2, 3]"
    by (simp add: entryBytes_eq runtime_def eval_text obj_get_def Uint32_bytes_def ToUint32_def)
  have path: "textToUint8Array ?P (js ''a'') = [97]" "uint8ArrayToText ?P [97] = js ''a''"
    by (simp_all add: runtime_def eval_text)
  have j0: "(0 :: nat) < length (entryBytes ?P ?files (js ''a''))"
    and j3: "(3 :: nat) < length (entryBytes ?P ?files (js ''a''))"
    and j10: "(10 :: nat) < length (entryBytes ?P ?files (js ''a''))"
    by (simp_all add: entry)
  note cut = decode_truncated [OF nonempty example_one_file_built cap example_one_file_parsed
      rejected order]
  from cut [OF j0, THEN conjunct2, THEN conjunct1, rule_format, of 40]
  have "decode ?P (take 40 (concat (allBuffers ?P ?files))) = Inl (Caught SyntaxError)"
    by (simp add: example_one_file_length)
  moreover from cut [OF j0, THEN conjunct2, THEN conjunct2]
    cut [OF j3, THEN conjunct2, THEN conjunct2] cut [OF j10, THEN conjunct2, THEN conjunct2]
  have "decode ?P (take 67 (concat (allBuffers ?P ?files))) = Inr [] \<and>
        decode ?P (take 70 (concat (allBuffers ?P ?files))) = Inl (Caught RangeError) \<and>
        decode ?P (take 77 (concat (allBuffers ?P ?files))) = Inr [(js ''a'', [1])]"
    by (simp add: example_one_file_length path obj_get_def)
  ultimately show ?thesis
    by (rule conjI)
qed

text \<open>
  Claim C2 as stated fails: the same container cut two bytes before its end decodes
  without an error, and the file comes back with one byte of its three.
\<close>

theorem truncated_content_accepted:
  "finalBuffer (runtime (js ''T'')) [(js ''a'', [1, 2, 3])] =
     Inr (concat (allBuffers (runtime (js ''T'')) [(js ''a'', [1, 2, 3])])) \<and>
   length (concat (allBuffers (runtime (js ''T'')) [(js ''a'', [1, 2, 3])])) = 79 \<and>
   decode (runtime (js ''T'')) (concat (allBuffers (runtime (js ''T'')) [(js ''a'', [1, 2, 3])])) =
     Inr [(js ''a'', [1, 2, 3])] \<and>
   decode (runtime (js ''T''))
     (take 77 (concat (allBuffers (runtime (js ''T'')) [(js ''a'', [1, 2, 3])]))) =
     Inr [(js ''a'', [1])]"
proof -
  let ?P = "runtime (js ''T'')"
  let ?files = "[(js ''a'', [1, 2, 3 :: byte])]"
  let ?m = "metadataBuffer ?P ?files"
  define pre where "pre = Uint32_bytes (length ?m) @ ?m"
  have e: "concat (map (entryBytes ?P ?files) (sort (Object_keys ?files))) =
           [1, 0, 0, 0, 3, 0, 0, 0, 97, 1, 2, 3]"
    by (simp add: Object_keys_def is_array_index_def is_digit_def entryBytes_eq runtime_def
        eval_text obj_get_def Uint32_bytes_def ToUint32_def)
  have whole: "concat (allBuffers ?P ?files) = pre @ [1, 0, 0, 0, 3, 0, 0, 0, 97, 1, 2, 3]"
    unfolding allBuffers_eq e pre_def by simp
  have len: "length pre = 67"
    by (simp add: pre_def length_Uint32_bytes example_one_file_length)
  have small: "length ?m < 2 ^ 32"
    by (simp add: example_one_file_length)
  have "readMetadata ?P (pre @ stream) = Inr (length ?m, 1)" for stream
    unfolding pre_def
    by (simp add: readMetadata_head [OF small] example_one_file_parsed property_archive
        length_Object_keys)
  then have head: "readMetadata ?P (pre @ stream) = Inr (63, 1)" for stream
    by (simp add: example_one_file_length)
  have at: "readEntries ?P (pre @ stream) 67 = readEntries ?P stream 0" for stream
    using readEntries_shift [of ?P pre stream 0] by (simp add: len)
  have full: "readEntries ?P [1, 0, 0, 0, 3, 0, 0, 0, 97, 1, 2, 3] 0 = Inr [(js ''a'', [1, 2, 3])]"
    by (simp add: readEntries.simps runtime_def eval_container eval_text)
  have part: "readEntries ?P [1, 0, 0, 0, 3, 0, 0, 0, 97, 1] 0 = Inr [(js ''a'', [1])]"
    by (simp add: readEntries.simps runtime_def eval_container eval_text)
  have cut: "take 77 (pre @ [1, 0, 0, 0, 3, 0, 0, 0, 97, 1, 2, 3]) = pre @ [1, 0, 0, 0, 3, 0, 0, 0, 97, 1]"
    by (simp add: len)
  have "length (concat (allBuffers ?P ?files)) = 79 \<and>
        decode ?P (concat (allBuffers ?P ?files)) = Inr [(js ''a'', [1, 2, 3])] \<and>
        decode ?P (take 77 (concat (allBuffers ?P ?files))) = Inr [(js ''a'', [1])]"
    unfolding whole cut by (simp add: decode_def head at full part len)
  with example_one_file_built show ?thesis
    by (rule conjI)
qed

subsection \<open>Where the files are written\<close>

lemma properSegments_simps [simp]:
  "properSegments []"
  "properSegments (xs @ ys) = (properSegments xs \<and> properSegments ys)"
  "properSegments (x # xs) = ((x \<noteq> [] \<and> x \<noteq> [CHAR_DOT] \<and> x \<noteq> [CHAR_DOT, CHAR_DOT]) \<and> properSegments xs)"
  by (auto simp: properSegments_def)

lemma properSegments_take: "properSegments xs \<Longrightarrow> properSegments (take n xs)"
  by (auto simp: properSegments_def dest: in_set_takeD)

lemma properSegments_butlast: "properSegments xs \<Longrightarrow> properSegments (butlast xs)"
  by (auto simp: properSegments_def dest: in_set_butlastD)

lemma properSegments_last: "properSegments xs \<Longrightarrow> xs \<noteq> [] \<Longrightarrow> last xs \<noteq> [CHAR_DOT, CHAR_DOT]"
  by (auto simp: properSegments_def)

lemma step_skip: "x = [] \<or> x = [CHAR_DOT] \<Longrightarrow> normalize_step b S x = S"
  by (auto simp: normalize_step_def)

lemma step_name:
  "x \<noteq> [] \<Longrightarrow> x \<noteq> [CHAR_DOT] \<Longrightarrow> x \<noteq> [CHAR_DOT, CHAR_DOT] \<Longrightarrow> normalize_step b S x = S @ [x]"
  by (simp add: normalize_step_def)

lemma step_up_pop:
  "S \<noteq> [] \<Longrightarrow> last S \<noteq> [CHAR_DOT, CHAR_DOT] \<Longrightarrow> normalize_step b S [CHAR_DOT, CHAR_DOT] = butlast S"
  by (simp add: normalize_step_def)

lemma step_up_keep:
  "S = [] \<or> last S = [CHAR_DOT, CHAR_DOT] \<Longrightarrow>
   normalize_step b S [CHAR_DOT, CHAR_DOT] = (if b then S @ [[CHAR_DOT, CHAR_DOT]] else S)"
  by (auto simp: normalize_step_def)

lemma normalizeString_snoc:
  "foldl (normalize_step b) S (segs @ [x]) = normalize_step b (foldl (normalize_step b) S segs) x"
  by simp

lemma butlast_take_le: "n \<le> length xs \<Longrightarrow> butlast (take n xs) = take (n - 1) xs"
  by (simp add: butlast_take)

text \<open>
  Normalising relative segments from the empty stack, where leading \<^verbatim>\<open>..\<close> are kept,
  and from a stack of proper segments, where they remove segments of the stack.
\<close>

lemma normalize_relative:
  assumes "properSegments C"
  shows "\<exists>k names. foldl (normalize_step True) [] segs = replicate k [CHAR_DOT, CHAR_DOT] @ names \<and>
           properSegments names \<and>
           foldl (normalize_step False) C segs = take (length C - k) C @ names"
proof (induction segs rule: rev_induct)
  case Nil
  show ?case by (rule exI [of _ 0]) simp
next
  case (snoc x segs)
  then obtain k names where
    t: "foldl (normalize_step True) [] segs = replicate k [CHAR_DOT, CHAR_DOT] @ names"
    and p: "properSegments names"
    and f: "foldl (normalize_step False) C segs = take (length C - k) C @ names"
    by blast
  let ?up = "[CHAR_DOT, CHAR_DOT]"
  consider (skip) "x = [] \<or> x = [CHAR_DOT]" | (up) "x = ?up" | (name) "x \<noteq> []" "x \<noteq> [CHAR_DOT]" "x \<noteq> ?up"
    by blast
  then show ?case
  proof cases
    case skip
    have "foldl (normalize_step True) [] (segs @ [x]) = replicate k ?up @ names"
      and "foldl (normalize_step False) C (segs @ [x]) = take (length C - k) C @ names"
      using t f by (simp_all add: step_skip [OF skip])
    then show ?thesis
      using p by blast
  next
    case name
    have "foldl (normalize_step True) [] (segs @ [x]) = replicate k ?up @ (names @ [x])"
      and "foldl (normalize_step False) C (segs @ [x]) = take (length C - k) C @ (names @ [x])"
      using t f by (simp_all add: step_name [OF name])
    moreover have "properSegments (names @ [x])"
      using p name by simp
    ultimately show ?thesis by blast
  next
    case up
    show ?thesis
    proof (cases "names = []")
      case False
      have l: "last (replicate k ?up @ names) \<noteq> ?up" "last (take (length C - k) C @ names) \<noteq> ?up"
        using False properSegments_last [OF p] by simp_all
      have ne: "replicate k ?up @ names \<noteq> []" "take (length C - k) C @ names \<noteq> []"
        using False by simp_all
      have "foldl (normalize_step True) [] (segs @ [x]) = replicate k ?up @ butlast names"
        and "foldl (normalize_step False) C (segs @ [x]) = take (length C - k) C @ butlast names"
        using False by (simp_all add: up t f step_up_pop [OF ne(1) l(1)] step_up_pop [OF ne(2) l(2)]
            butlast_append)
      moreover have "properSegments (butlast names)"
        by (rule properSegments_butlast [OF p])
      ultimately show ?thesis by blast
    next
      case True
      have "replicate k ?up = [] \<or> last (replicate k ?up) = ?up"
        by (cases k) simp_all
      then have t': "foldl (normalize_step True) [] (segs @ [x]) = replicate (Suc k) ?up @ []"
        by (simp add: up t True step_up_keep replicate_append_same)
      have f': "foldl (normalize_step False) C (segs @ [x]) = take (length C - Suc k) C @ []"
      proof (cases "length C - k")
        case 0
        then show ?thesis by (simp add: up f True step_up_keep)
      next
        case (Suc n)
        then have ne: "take (length C - k) C \<noteq> []" by auto
        have "last (take (length C - k) C) \<noteq> ?up"
          by (rule properSegments_last [OF properSegments_take [OF assms] ne])
        then show ?thesis
          by (simp add: up f True step_up_pop [OF ne] butlast_take_le)
      qed
      from t' f' show ?thesis
        by (intro exI [of _ "Suc k"] exI [of _ "[]"]) simp
    qed
  qed
qed

lemma normalize_ups:
  assumes "properSegments C"
  shows "foldl (normalize_step False) C (replicate k [CHAR_DOT, CHAR_DOT]) = take (length C - k) C"
proof (induction k)
  case 0
  show ?case by simp
next
  case (Suc k)
  have "replicate (Suc k) [CHAR_DOT, CHAR_DOT] = replicate k [CHAR_DOT, CHAR_DOT] @ [[CHAR_DOT, CHAR_DOT]]"
    by (simp add: replicate_append_same)
  then have "foldl (normalize_step False) C (replicate (Suc k) [CHAR_DOT, CHAR_DOT]) =
        normalize_step False (take (length C - k) C) [CHAR_DOT, CHAR_DOT]"
    using Suc by simp
  also have "\<dots> = take (length C - Suc k) C"
  proof (cases "length C - k")
    case 0
    then show ?thesis by (simp add: step_up_keep)
  next
    case (Suc n)
    then have ne: "take (length C - k) C \<noteq> []" by auto
    have "last (take (length C - k) C) \<noteq> [CHAR_DOT, CHAR_DOT]"
      by (rule properSegments_last [OF properSegments_take [OF assms] ne])
    then show ?thesis
      by (simp add: step_up_pop [OF ne] butlast_take_le)
  qed
  finally show ?case .
qed

lemma normalize_names:
  "properSegments names \<Longrightarrow> foldl (normalize_step b) S names = S @ names"
proof (induction names arbitrary: S)
  case Nil
  show ?case by simp
next
  case (Cons x names)
  then show ?case by (simp add: step_name)
qed

lemma normalize_static:
  "[CHAR_DOT, CHAR_DOT] \<notin> set segs \<Longrightarrow>
   foldl (normalize_step b) S segs = S @ filter (\<lambda>s. s \<noteq> [] \<and> s \<noteq> [CHAR_DOT]) segs"
proof (induction segs arbitrary: S)
  case Nil
  show ?case by simp
next
  case (Cons x segs)
  then show ?case by (cases "x = [] \<or> x = [CHAR_DOT]") (auto simp: step_skip step_name)
qed

lemma normalize_proper:
  "properSegments S \<Longrightarrow> properSegments (foldl (normalize_step False) S segs)"
proof (induction segs arbitrary: S)
  case Nil
  then show ?case by simp
next
  case (Cons x segs)
  have "properSegments (normalize_step False S x)"
    using Cons.prems by (auto simp: normalize_step_def properSegments_butlast)
  then show ?case by (simp add: Cons.IH)
qed

text \<open>Normalising what has been normalised gives the location of the original.\<close>

lemma normalize_again_relative:
  assumes "properSegments C"
  shows "foldl (normalize_step False) C (foldl (normalize_step True) [] segs) =
         foldl (normalize_step False) C segs"
proof -
  from normalize_relative [OF assms, of segs] obtain k names where
    t: "foldl (normalize_step True) [] segs = replicate k [CHAR_DOT, CHAR_DOT] @ names"
    and p: "properSegments names"
    and f: "foldl (normalize_step False) C segs = take (length C - k) C @ names"
    by blast
  show ?thesis
    unfolding t f by (simp add: normalize_ups [OF assms] normalize_names [OF p])
qed

lemma normalize_again_absolute:
  "foldl (normalize_step False) [] (foldl (normalize_step False) [] segs) =
   foldl (normalize_step False) [] segs"
  using normalize_names [OF normalize_proper [of "[]" segs], of False "[]"] by simp

lemma split_on_Cons_sep: "split_on c (c # s) = [] # split_on c s"
  by simp

lemma split_on_not_Nil: "split_on c s \<noteq> []"
  by (induction s) (auto split: list.splits)

lemma split_on_append: "split_on c (a @ c # b) = split_on c a @ split_on c b"
proof (induction a)
  case Nil
  show ?case by simp
next
  case (Cons x a)
  then show ?case
    using split_on_not_Nil [of c a] by (cases "split_on c a") (auto split: list.splits)
qed

lemma split_on_free: "s \<in> set (split_on c x) \<Longrightarrow> c \<notin> set s"
proof (induction x arbitrary: s)
  case Nil
  then show ?case by simp
next
  case (Cons y x)
  then show ?case
    by (cases "split_on c x") (auto split: if_splits)
qed

lemma split_on_single: "c \<notin> set s \<Longrightarrow> split_on c s = [s]"
  by (induction s) auto

lemma split_on_join:
  "segs \<noteq> [] \<Longrightarrow> \<forall>s \<in> set segs. c \<notin> set s \<Longrightarrow> split_on c (join_with c segs) = segs"
proof (induction c segs rule: join_with.induct)
  case (1 c)
  then show ?case by simp
next
  case (2 c s)
  then show ?case by (simp add: split_on_single)
next
  case (3 c s t ss)
  then show ?case by (simp add: split_on_append split_on_single)
qed

lemma join_with_not_Nil: "segs \<noteq> [] \<Longrightarrow> hd segs \<noteq> [] \<Longrightarrow> join_with c segs \<noteq> []"
  by (induction c segs rule: join_with.induct) auto

lemma hd_join_with: "segs \<noteq> [] \<Longrightarrow> hd segs \<noteq> [] \<Longrightarrow> hd (join_with c segs) = hd (hd segs)"
  by (induction c segs rule: join_with.induct) auto

lemma normalize_step_subset: "set (normalize_step b S x) \<subseteq> insert x (set S)"
  by (auto simp: normalize_step_def dest: in_set_butlastD)

lemma normalize_subset: "set (foldl (normalize_step b) S segs) \<subseteq> set S \<union> set segs"
proof (induction segs arbitrary: S)
  case Nil
  show ?case by simp
next
  case (Cons x segs)
  show ?case
    using Cons.IH [of "normalize_step b S x"] normalize_step_subset [of b S x] by auto
qed

lemma normalize_step_nonempty: "[] \<notin> set S \<Longrightarrow> [] \<notin> set (normalize_step b S x)"
  by (auto simp: normalize_step_def dest: in_set_butlastD)

lemma normalize_nonempty: "[] \<notin> set S \<Longrightarrow> [] \<notin> set (foldl (normalize_step b) S segs)"
  by (induction segs arbitrary: S) (simp_all add: normalize_step_nonempty)

lemma resolve_eq:
  "resolve w path =
     foldl (normalize_step False)
       (foldl (normalize_step False) [] (if isAbsolute path then [] else cwd w))
       (split_on CHAR_FORWARD_SLASH path)"
  by (simp add: resolve_def normalizeString_def)

lemma normalize_again:
  assumes "properSegments B" and "ab \<longrightarrow> B = []"
  shows "foldl (normalize_step False) B (foldl (normalize_step (\<not> ab)) [] segs) =
         foldl (normalize_step False) B segs"
proof (cases ab)
  case True
  then show ?thesis using assms(2) normalize_again_absolute [of segs] by simp
next
  case False
  then show ?thesis using normalize_again_relative [OF assms(1), of segs] by simp
qed

lemma normalize_form:
  assumes "path \<noteq> []"
    and "p = join_with CHAR_FORWARD_SLASH
               (normalizeString (split_on CHAR_FORWARD_SLASH path) (\<not> isAbsolute path))"
  shows "normalize path =
        (if p = [] then
           (if isAbsolute path then [CHAR_FORWARD_SLASH]
            else if trailingSeparator path then [CHAR_DOT, CHAR_FORWARD_SLASH]
            else [CHAR_DOT])
         else (if isAbsolute path then [CHAR_FORWARD_SLASH] else []) @ p @
              (if trailingSeparator path then [CHAR_FORWARD_SLASH] else []))"
  using assms(1) unfolding assms(2) by (simp add: normalize_def Let_def)

lemma isAbsolute_normalize:
  assumes "path \<noteq> []"
  shows "isAbsolute (normalize path) = isAbsolute path"
proof -
  define N where "N = normalizeString (split_on CHAR_FORWARD_SLASH path) (\<not> isAbsolute path)"
  define p where "p = join_with CHAR_FORWARD_SLASH N"
  note norm = normalize_form [OF assms p_def [unfolded N_def]]
  have dot: "CHAR_DOT \<noteq> CHAR_FORWARD_SLASH"
    by (simp add: CHAR_DOT_def CHAR_FORWARD_SLASH_def)
  show ?thesis
  proof (cases "p = []")
    case True
    then show ?thesis
      using dot by (simp add: norm isAbsolute_def)
  next
    case False
    then have N: "N \<noteq> []" by (auto simp: p_def)
    have free: "CHAR_FORWARD_SLASH \<notin> set (hd N)"
      using hd_in_set [OF N]
        normalize_subset [of "\<not> isAbsolute path" "[]" "split_on CHAR_FORWARD_SLASH path"]
        split_on_free [of "hd N" CHAR_FORWARD_SLASH path]
      by (auto simp: normalizeString_def N_def)
    have nonempty: "hd N \<noteq> []"
      using hd_in_set [OF N]
        normalize_nonempty [of "[]" "\<not> isAbsolute path" "split_on CHAR_FORWARD_SLASH path"]
      by (auto simp: normalizeString_def N_def)
    have "hd p = hd (hd N)"
      unfolding p_def by (rule hd_join_with [OF N nonempty])
    then have "hd p \<noteq> CHAR_FORWARD_SLASH"
      using free nonempty by (cases "hd N") auto
    then show ?thesis
      using False by (simp add: norm isAbsolute_def)
  qed
qed

lemma split_normalize:
  assumes "path \<noteq> []"
  shows "foldl (normalize_step False) B (split_on CHAR_FORWARD_SLASH (normalize path)) =
         foldl (normalize_step False) B
           (normalizeString (split_on CHAR_FORWARD_SLASH path) (\<not> isAbsolute path))"
proof -
  define N where "N = normalizeString (split_on CHAR_FORWARD_SLASH path) (\<not> isAbsolute path)"
  define p where "p = join_with CHAR_FORWARD_SLASH N"
  have free: "\<forall>s \<in> set N. CHAR_FORWARD_SLASH \<notin> set s"
    using normalize_subset [of "\<not> isAbsolute path" "[]" "split_on CHAR_FORWARD_SLASH path"]
      split_on_free [of _ CHAR_FORWARD_SLASH path]
    by (auto simp: normalizeString_def N_def)
  have nonempty: "[] \<notin> set N"
    using normalize_nonempty [of "[]" "\<not> isAbsolute path" "split_on CHAR_FORWARD_SLASH path"]
    by (simp add: normalizeString_def N_def)
  note norm = normalize_form [OF assms p_def [unfolded N_def]]
  have "foldl (normalize_step False) B (split_on CHAR_FORWARD_SLASH (normalize path)) =
        foldl (normalize_step False) B N"
  proof (cases "N = []")
    case True
    then have "p = []" by (simp add: p_def)
    then have "normalize path = [CHAR_FORWARD_SLASH] \<or> normalize path = [CHAR_DOT, CHAR_FORWARD_SLASH]
               \<or> normalize path = [CHAR_DOT]"
      by (simp add: norm)
    moreover have "CHAR_DOT \<noteq> CHAR_FORWARD_SLASH"
      by (simp add: CHAR_DOT_def CHAR_FORWARD_SLASH_def)
    ultimately show ?thesis
      using True by (auto simp: step_skip)
  next
    case False
    then have "hd N \<noteq> []" using nonempty by (cases N) auto
    then have p: "p \<noteq> []" unfolding p_def by (rule join_with_not_Nil [OF False])
    have sp: "split_on CHAR_FORWARD_SLASH p = N"
      unfolding p_def by (rule split_on_join [OF False free])
    have front: "split_on CHAR_FORWARD_SLASH (CHAR_FORWARD_SLASH # s) = [] # split_on CHAR_FORWARD_SLASH s" for s
      by simp
    have rear: "split_on CHAR_FORWARD_SLASH (s @ [CHAR_FORWARD_SLASH]) = split_on CHAR_FORWARD_SLASH s @ [[]]" for s
      using split_on_append [of CHAR_FORWARD_SLASH s "[]"] by simp
    have "split_on CHAR_FORWARD_SLASH (normalize path) =
            (if isAbsolute path then [[]] else []) @ N @ (if trailingSeparator path then [[]] else [])"
      using p by (simp add: norm front rear sp del: split_on.simps)
    then show ?thesis
      by (simp add: step_skip)
  qed
  then show ?thesis
    by (simp add: N_def)
qed

lemma resolve_normalize:
  assumes "path \<noteq> []"
  shows "resolve w (normalize path) = resolve w path"
proof -
  let ?B = "foldl (normalize_step False) [] (if isAbsolute path then [] else cwd w)"
  have B: "properSegments ?B"
    by (rule normalize_proper) simp
  have "resolve w (normalize path) =
        foldl (normalize_step False) ?B (split_on CHAR_FORWARD_SLASH (normalize path))"
    by (simp add: resolve_eq isAbsolute_normalize [OF assms])
  also have "\<dots> = foldl (normalize_step False) ?B
       (foldl (normalize_step (\<not> isAbsolute path)) [] (split_on CHAR_FORWARD_SLASH path))"
    by (simp add: split_normalize [OF assms] normalizeString_def)
  also have "\<dots> = foldl (normalize_step False) ?B (split_on CHAR_FORWARD_SLASH path)"
    by (rule normalize_again [OF B]) simp
  finally show ?thesis
    by (simp add: resolve_eq)
qed

lemma resolve_join:
  assumes "outputDir \<noteq> []"
  shows "resolve w (join [outputDir, path]) =
         foldl (normalize_step False) (resolve w outputDir) (split_on CHAR_FORWARD_SLASH path)"
proof (cases "path = []")
  case True
  then show ?thesis
    using assms by (simp add: join_def resolve_normalize step_skip)
next
  case False
  let ?joined = "outputDir @ CHAR_FORWARD_SLASH # path"
  have abs: "isAbsolute ?joined = isAbsolute outputDir"
    using assms by (simp add: isAbsolute_def)
  have "join [outputDir, path] = normalize ?joined"
    using assms False by (simp add: join_def)
  then have "resolve w (join [outputDir, path]) = resolve w ?joined"
    by (simp add: resolve_normalize)
  also have "\<dots> = foldl (normalize_step False) (resolve w outputDir) (split_on CHAR_FORWARD_SLASH path)"
    by (simp add: resolve_eq abs split_on_append del: split_on.simps)
  finally show ?thesis .
qed

lemma join_isUnder:
  assumes "outputDir \<noteq> []" and "[CHAR_DOT, CHAR_DOT] \<notin> set (split_on CHAR_FORWARD_SLASH path)"
  shows "isUnder w outputDir (join [outputDir, path])"
  by (simp add: isUnder_def resolve_join [OF assms(1)] normalize_static [OF assms(2)])

lemma normalize_not_Nil: "normalize path \<noteq> []"
  by (simp add: normalize_def Let_def)

lemma join_not_Nil: "join args \<noteq> []"
  by (simp add: join_def Let_def normalize_not_Nil)

lemma outputDirOf_not_Nil: "outputDirOf archivePath outputDir \<noteq> []"
  by (simp add: outputDirOf_def join_not_Nil split: option.splits)

text \<open>
  A call that follows a path from a place with proper names reaches the location that
  \<open>resolve\<close> computes.
\<close>

lemma walk_resolve:
  "walk r cur segs = Inr location \<Longrightarrow> properSegments cur \<Longrightarrow>
   location = foldl (normalize_step False) cur segs"
proof (induction segs arbitrary: cur)
  case Nil
  then show ?case by simp
next
  case (Cons s ss)
  let ?next = "if s = [] \<or> s = [CHAR_DOT] then cur
               else if s = [CHAR_DOT, CHAR_DOT] then butlast cur else cur @ [s]"
  from Cons.prems(1) have w: "walk r ?next ss = Inr location"
    by (auto split: option.splits node.splits)
  have step: "normalize_step False cur s = ?next"
  proof (cases "cur = []")
    case True
    then show ?thesis by (simp add: normalize_step_def)
  next
    case False
    from properSegments_last [OF Cons.prems(2) False] False show ?thesis
      by (simp add: normalize_step_def)
  qed
  have "properSegments ?next"
    using Cons.prems(2) by (auto simp: properSegments_butlast)
  from Cons.IH [OF w this] show ?case
    by (simp add: step)
qed

lemma locate_resolve:
  assumes "locate w path = Inr location" and "properSegments (cwd w)"
  shows "location = resolve w path"
proof -
  have st: "properSegments (start w path)"
    using assms(2) by (simp add: start_def)
  from assms(1) have "walk (root w) (start w path) (split_on CHAR_FORWARD_SLASH path) = Inr location"
    by (auto simp: locate_def split: if_splits)
  from walk_resolve [OF this st] show ?thesis
    using normalize_names [OF st, of False "[]"] by (simp add: resolve_def normalizeString_def start_def)
qed

lemma lookup_put_new:
  "lookup r cur = Some (Dir es) \<Longrightarrow> lookup (put r cur name n) (cur @ [name]) = Some n"
proof (induction r cur name n arbitrary: es rule: put.induct)
  case (1 es0 name n)
  show ?case by (simp add: update_conv')
next
  case (2 es0 s ss name n)
  from "2.prems" obtain d where d: "map_of es0 s = Some d" and l: "lookup d ss = Some (Dir es)"
    by (auto split: option.splits)
  from "2.IH" [OF d l] show ?case
    by (simp add: d update_conv')
next
  case (3 c cur name n)
  then show ?case by (cases cur) simp_all
qed

lemma walk_last:
  assumes "s \<noteq> []" and "s \<noteq> [CHAR_DOT]" and "s \<noteq> [CHAR_DOT, CHAR_DOT]"
  shows "walk r cur (segs @ [s]) = Inr location \<Longrightarrow>
         \<exists>parent es. lookup r parent = Some (Dir es) \<and> location = parent @ [s]"
proof (induction segs arbitrary: cur)
  case Nil
  then show ?case using assms by (auto split: option.splits node.splits)
next
  case (Cons t segs)
  from Cons.prems have "walk r (if t = [] \<or> t = [CHAR_DOT] then cur
                  else if t = [CHAR_DOT, CHAR_DOT] then butlast cur
                  else cur @ [t]) (segs @ [s]) = Inr location"
    by (auto split: option.splits node.splits)
  from Cons.IH [OF this] show ?case .
qed

lemma normalize_skip_empty:
  "foldl (normalize_step b) S (filter (\<lambda>s. s \<noteq> []) segs) = foldl (normalize_step b) S segs"
  by (induction segs arbitrary: S) (simp_all add: step_skip)

text \<open>A file that has been written is at the location that \<open>resolve\<close> gives for its path.\<close>

lemma writeFileSync_location:
  assumes "writeFileSync path content w = (w', Inr ())" and "properSegments (cwd w)"
  shows "lookup (root w') (resolve w path) = Some (File content)"
proof -
  let ?names = "filter (\<lambda>s. s \<noteq> []) (split_on CHAR_FORWARD_SLASH path)"
  from assms(1) obtain location where
    loc: "walk (root w) (start w path) ?names = Inr location"
    and names: "?names \<noteq> []" "last ?names \<noteq> [CHAR_DOT]" "last ?names \<noteq> [CHAR_DOT, CHAR_DOT]"
    and w': "root w' = put (root w) (butlast location) (last location) (File content)"
    by (auto simp: writeFileSync_def Let_def split: if_splits sum.splits option.splits node.splits)
  have st: "properSegments (start w path)"
    using assms(2) by (simp add: start_def)
  have "last ?names \<in> set ?names"
    using names(1) by (rule last_in_set)
  then have ne: "last ?names \<noteq> []"
    by simp
  from loc have "walk (root w) (start w path) (butlast ?names @ [last ?names]) = Inr location"
    using names(1) by simp
  from walk_last [OF ne names(2,3) this] obtain parent es where
    parent: "lookup (root w) parent = Some (Dir es)" and location: "location = parent @ [last ?names]"
    by blast
  have "location = resolve w path"
    using walk_resolve [OF loc st] normalize_names [OF st, of False "[]"]
    by (simp add: normalize_skip_empty resolve_def normalizeString_def start_def)
  moreover have "lookup (root w') location = Some (File content)"
    using lookup_put_new [OF parent] by (simp add: w' location)
  ultimately show ?thesis
    by simp
qed

text \<open>
  Whatever the outcome of the extraction loop, the files it has written belong to the
  first entries of the stream, one file for each, at the output directory joined with
  the path of the entry.
\<close>

lemma entriesRead_end: "length decompressed \<le> offset \<Longrightarrow> entriesRead P decompressed offset = []"
  by (simp add: entriesRead.simps)

lemma extractFiles_writes:
  assumes "extractFiles P outputDir decompressed offset extracted w = (w', r)"
  shows "\<exists>entries rest. entriesRead P decompressed offset = entries @ rest \<and>
           writes (changes w') =
             writes (changes w) @ map (\<lambda>(path, content). (join [outputDir, path], content)) entries"
  using assms
proof (induction P outputDir decompressed offset extracted w rule: extractFiles.induct)
  case (1 P outputDir decompressed offset extracted w)
  let ?written = "\<lambda>w' entries. writes (changes w') =
             writes (changes w) @ map (\<lambda>(path, content). (join [outputDir, path], content)) entries"
  have none: ?case if "writes (changes w') = writes (changes w)"
    using that by (intro exI [of _ "[]"] exI [of _ "entriesRead P decompressed offset"]) simp
  show ?case
  proof (cases "offset < length decompressed")
    case False
    then have "w' = w"
      using "1.prems" by (simp add: extractFiles.simps)
    then show ?thesis by (intro none) simp
  next
    case True
    show ?thesis
    proof (cases "readEntry P decompressed offset")
      case (Inl e)
      then have "w' = w"
        using True "1.prems" by (simp add: extractFiles.simps)
      then show ?thesis by (intro none) simp
    next
      case (Inr entry)
      then obtain path content offset' where
        entry: "readEntry P decompressed offset = Inr (path, content, offset')"
        by (cases entry) auto
      let ?fullPath = "join [outputDir, path]"
      obtain w1 r1 where dir: "ensureDirectoryExists (dirname ?fullPath) w = (w1, r1)"
        by (cases "ensureDirectoryExists (dirname ?fullPath) w")
      obtain w2 r2 where wr: "writeFileSync ?fullPath content w1 = (w2, r2)"
        by (cases "writeFileSync ?fullPath content w1")
      note d = ensureDirectoryExists_result [OF dir]
      note f = writeFileSync_result [OF wr]
      show ?thesis
      proof (cases "r1 = Inr () \<and> r2 = Inr ()")
        case False
        then have "(r1 \<noteq> Inr () \<and> w' = w1) \<or> (r1 = Inr () \<and> r2 \<noteq> Inr () \<and> w' = w2)"
          using True entry dir wr "1.prems"
          by (subst (asm) extractFiles.simps) (auto simp: Let_def split: sum.splits)
        then have "writes (changes w') = writes (changes w)"
          using d f by auto
        then show ?thesis by (rule none)
      next
        case ok: True
        then have rest: "extractFiles P outputDir decompressed offset' (extracted + length content) w2 =
                   (w', r)"
          using True entry dir wr "1.prems"
          by (subst (asm) extractFiles.simps) (simp add: Let_def)
        from "1.IH" [OF True entry refl refl refl refl dir [symmetric] _ wr [symmetric] _ rest] ok
        obtain entries rest where
          entries: "entriesRead P decompressed offset' = entries @ rest"
          and log: "writes (changes w') =
             writes (changes w2) @ map (\<lambda>(path, content). (join [outputDir, path], content)) entries"
          by auto
        have w2: "writes (changes w2) = writes (changes w) @ [(?fullPath, content)]"
          using d f ok by (simp add: writes_append)
        have "entriesRead P decompressed offset = ((path, content) # entries) @ rest"
          by (subst entriesRead.simps) (simp add: True entry entries)
        moreover have "?written w' ((path, content) # entries)"
          using log w2 by simp
        ultimately show ?thesis by blast
      qed
    qed
  qed
qed

lemma uncompressArchive_run:
  assumes "uncompressArchive P archivePath outputDir w = (w', result)"
  shows "writes (changes w') = writes (changes w) \<or>
         (\<exists>w1 archiveData decompressed metadataLength fileCount r.
            readFileSync w archivePath = Inr archiveData \<and>
            gunzipSync P archiveData = Inr decompressed \<and>
            readMetadata P decompressed = Inr (metadataLength, fileCount) \<and>
            writes (changes w1) = writes (changes w) \<and>
            extractFiles P (outputDirOf archivePath outputDir) decompressed (4 + metadataLength) 0 w1 =
              (w', r))"
proof (cases "stat w archivePath")
  case (Inl e)
  then show ?thesis using assms by (simp add: uncompressArchive_def)
next
  case (Inr archiveStats)
  show ?thesis
  proof (cases archiveStats)
    case (Dir es)
    then show ?thesis using assms Inr by (simp add: uncompressArchive_def)
  next
    case (File c)
    then have rd: "readFileSync w archivePath = Inr c"
      using Inr by (simp add: readFileSync_stat)
    obtain w1 r1 where dir: "ensureDirectoryExists (outputDirOf archivePath outputDir) w = (w1, r1)"
      by (cases "ensureDirectoryExists (outputDirOf archivePath outputDir) w")
    note d = ensureDirectoryExists_result [OF dir]
    have rd1: "readFileSync w1 archivePath = Inr c"
      by (rule readFileSync_after_ensure [OF rd dir])
    show ?thesis
    proof (cases r1)
      case (Inl e)
      then show ?thesis
        using assms Inr File dir d by (auto simp: uncompressArchive_def)
    next
      case ok: (Inr u)
      show ?thesis
      proof (cases "gunzipSync P c")
        case (Inl e)
        then show ?thesis
          using assms Inr File dir d ok rd1 by (auto simp: uncompressArchive_def)
      next
        case gz: (Inr decompressed)
        show ?thesis
        proof (cases "readMetadata P decompressed")
          case (Inl e)
          then show ?thesis
            using assms Inr File dir d ok rd1 gz by (auto simp: uncompressArchive_def)
        next
          case md: (Inr counts)
          obtain metadataLength fileCount where counts: "counts = (metadataLength, fileCount)"
            by (cases counts)
          obtain w2 r2 where ex: "extractFiles P (outputDirOf archivePath outputDir) decompressed
                                    (4 + metadataLength) 0 w1 = (w2, r2)"
            by (cases "extractFiles P (outputDirOf archivePath outputDir) decompressed
                         (4 + metadataLength) 0 w1")
          have "w' = w2"
            using assms Inr File dir ok rd1 gz md counts ex
            by (auto simp: uncompressArchive_def split: sum.splits)
          then show ?thesis
            using rd gz md counts ex d by blast
        qed
      qed
    qed
  qed
qed

text \<open>
  Claim C3, as the code has it.  Whatever its outcome, a run of \<open>uncompressArchive\<close>
  writes files only for entries of the stream of the archive: one file for each of the
  first entries, as far as the run gets, at the output directory joined with the path
  of the entry.  Such a file lies under the output directory if the path of the entry
  has no segment \<^verbatim>\<open>..\<close>; a leading separator of the path does not lead out of it.  The
  output directory is the one given or, without one, the one made from the path of the
  archive.
\<close>

theorem writes_under_outputDir:
  assumes "uncompressArchive P archivePath outputDir w = (w', result)"
  shows "\<exists>entries.
           writes (changes w') =
             writes (changes w) @
             map (\<lambda>(path, content). (join [outputDirOf archivePath outputDir, path], content)) entries
         \<and> (entries = [] \<or>
              (\<exists>archiveData decompressed metadataLength fileCount rest.
                 readFileSync w archivePath = Inr archiveData \<and>
                 gunzipSync P archiveData = Inr decompressed \<and>
                 readMetadata P decompressed = Inr (metadataLength, fileCount) \<and>
                 entriesRead P decompressed (4 + metadataLength) = entries @ rest))
         \<and> (\<forall>(path, content) \<in> set entries.
               [CHAR_DOT, CHAR_DOT] \<notin> set (split_on CHAR_FORWARD_SLASH path) \<longrightarrow>
               isUnder w (outputDirOf archivePath outputDir)
                 (join [outputDirOf archivePath outputDir, path]))"
proof -
  let ?dir = "outputDirOf archivePath outputDir"
  have under: "\<forall>(path, content) \<in> set entries.
               [CHAR_DOT, CHAR_DOT] \<notin> set (split_on CHAR_FORWARD_SLASH path) \<longrightarrow>
               isUnder w ?dir (join [?dir, path])" for entries :: "(jsstring \<times> bytes) list"
    using join_isUnder [OF outputDirOf_not_Nil] by auto
  from uncompressArchive_run [OF assms] show ?thesis
  proof
    assume "writes (changes w') = writes (changes w)"
    then show ?thesis
      by (intro exI [of _ "[]"]) simp
  next
    assume "\<exists>w1 archiveData decompressed metadataLength fileCount r.
            readFileSync w archivePath = Inr archiveData \<and>
            gunzipSync P archiveData = Inr decompressed \<and>
            readMetadata P decompressed = Inr (metadataLength, fileCount) \<and>
            writes (changes w1) = writes (changes w) \<and>
            extractFiles P ?dir decompressed (4 + metadataLength) 0 w1 = (w', r)"
    then obtain w1 archiveData decompressed metadataLength fileCount r where
      rd: "readFileSync w archivePath = Inr archiveData"
      and gz: "gunzipSync P archiveData = Inr decompressed"
      and md: "readMetadata P decompressed = Inr (metadataLength, fileCount)"
      and w1: "writes (changes w1) = writes (changes w)"
      and ex: "extractFiles P ?dir decompressed (4 + metadataLength) 0 w1 = (w', r)"
      by blast
    from extractFiles_writes [OF ex] obtain entries rest where
      entries: "entriesRead P decompressed (4 + metadataLength) = entries @ rest"
      and log: "writes (changes w') =
             writes (changes w1) @ map (\<lambda>(path, content). (join [?dir, path], content)) entries"
      by blast
    show ?thesis
    proof (intro exI [of _ entries] conjI)
      show "writes (changes w') =
             writes (changes w) @ map (\<lambda>(path, content). (join [?dir, path], content)) entries"
        using log w1 by simp
      show "entries = [] \<or>
              (\<exists>archiveData decompressed metadataLength fileCount rest.
                 readFileSync w archivePath = Inr archiveData \<and>
                 gunzipSync P archiveData = Inr decompressed \<and>
                 readMetadata P decompressed = Inr (metadataLength, fileCount) \<and>
                 entriesRead P decompressed (4 + metadataLength) = entries @ rest)"
        using rd gz md entries by blast
      show "\<forall>(path, content) \<in> set entries.
               [CHAR_DOT, CHAR_DOT] \<notin> set (split_on CHAR_FORWARD_SLASH path) \<longrightarrow>
               isUnder w ?dir (join [?dir, path])"
        by (rule under)
    qed
  qed
qed

lemma example_leading_slash_run:
  "uncompressArchive (runtime (js ''T'')) (js ''a'') (Some (js ''out''))
     \<lparr>root = Dir [(js ''a'',
         File ([31, 139] @ [13, 0, 0, 0] @ [123, 34, 102, 105, 108, 101, 115, 34, 58, 91, 49, 93, 125] @
               [4, 0, 0, 0, 1, 0, 0, 0, 47, 115, 47, 102, 7]))],
      cwd = [], changes = []\<rparr> =
   (\<lparr>root = Dir [(js ''a'',
         File ([31, 139] @ [13, 0, 0, 0] @ [123, 34, 102, 105, 108, 101, 115, 34, 58, 91, 49, 93, 125] @
               [4, 0, 0, 0, 1, 0, 0, 0, 47, 115, 47, 102, 7])),
        (js ''out'', Dir [(js ''s'', Dir [(js ''f'', File [7])])])],
      cwd = [],
      changes = [Mkdir (js ''out''), Mkdir (js ''out/s''), WriteFile (js ''out/s/f'') [7]]\<rparr>,
    Inr \<lparr>reportedFiles = 1, reportedSize = 1\<rparr>)"
  by (simp add: uncompressArchive_def extractFiles.simps runtime_def eval_fs eval_container
      eval_text eval_parse is_digit_def js_def)

text \<open>
  An archive whose only entry has the path \<^verbatim>\<open>/s/f\<close>: the file is written to
  \<^verbatim>\<open>out/s/f\<close>, under the output directory.
\<close>

theorem writes_under_outputDir_witness:
  "writes (changes (fst (uncompressArchive (runtime (js ''T'')) (js ''a'') (Some (js ''out''))
     \<lparr>root = Dir [(js ''a'',
         File ([31, 139] @ [13, 0, 0, 0] @ [123, 34, 102, 105, 108, 101, 115, 34, 58, 91, 49, 93, 125] @
               [4, 0, 0, 0, 1, 0, 0, 0, 47, 115, 47, 102, 7]))],
      cwd = [], changes = []\<rparr>))) = [(js ''out/s/f'', [7])] \<and>
   isUnder \<lparr>root = Dir [(js ''a'',
         File ([31, 139] @ [13, 0, 0, 0] @ [123, 34, 102, 105, 108, 101, 115, 34, 58, 91, 49, 93, 125] @
               [4, 0, 0, 0, 1, 0, 0, 0, 47, 115, 47, 102, 7]))],
      cwd = [], changes = []\<rparr> (js ''out'') (js ''out/s/f'')"
proof -
  let ?P = "runtime (js ''T'')"
  let ?d = "[13, 0, 0, 0] @ [123, 34, 102, 105, 108, 101, 115, 34, 58, 91, 49, 93, 125] @
            [4, 0, 0, 0, 1, 0, 0, 0, 47, 115, 47, 102, 7 :: byte]"
  let ?data = "[31, 139] @ ?d"
  define w where "w = \<lparr>root = Dir [(js ''a'', File ?data)], cwd = [], changes = []\<rparr>"
  obtain w' result where run: "uncompressArchive ?P (js ''a'') (Some (js ''out'')) w = (w', result)"
    and log: "writes (changes w') = [(js ''out/s/f'', [7])]"
    unfolding w_def example_leading_slash_run by simp
  have out: "outputDirOf (js ''a'') (Some (js ''out'')) = js ''out''"
    by (simp add: outputDirOf_def js_def)
  have start: "writes (changes w) = []"
    by (simp add: w_def)
  have rd: "readFileSync w (js ''a'') = Inr ?data"
    by (simp add: w_def eval_fs js_def)
  have gz: "gunzipSync ?P ?data = Inr ?d"
    by (simp add: runtime_def)
  have md: "readMetadata ?P ?d = Inr (13, 1)"
    by (simp add: runtime_def eval_container eval_text eval_parse is_digit_def js_def)
  have stream: "entriesRead ?P ?d (4 + 13) = [(js ''/s/f'', [7])]"
    by (simp add: entriesRead.simps runtime_def eval_container eval_text js_def)
  have safe: "[CHAR_DOT, CHAR_DOT] \<notin> set (split_on CHAR_FORWARD_SLASH (js ''/s/f''))"
    by (simp add: js_def CHAR_DOT_def CHAR_FORWARD_SLASH_def)
  have joined: "join [js ''out'', js ''/s/f''] = js ''out/s/f''"
    by (simp add: eval_fs js_def)
  from writes_under_outputDir [OF run, unfolded out start]
  obtain entries where
    a: "writes (changes w') =
          [] @ map (\<lambda>(path, content). (join [js ''out'', path], content)) entries"
    and b: "entries = [] \<or>
              (\<exists>archiveData decompressed metadataLength fileCount rest.
                 readFileSync w (js ''a'') = Inr archiveData \<and>
                 gunzipSync ?P archiveData = Inr decompressed \<and>
                 readMetadata ?P decompressed = Inr (metadataLength, fileCount) \<and>
                 entriesRead ?P decompressed (4 + metadataLength) = entries @ rest)"
    and c: "\<forall>(path, content) \<in> set entries.
               [CHAR_DOT, CHAR_DOT] \<notin> set (split_on CHAR_FORWARD_SLASH path) \<longrightarrow>
               isUnder w (js ''out'') (join [js ''out'', path])"
    by blast
  from a log have one: "length entries = 1"
    by (auto dest: arg_cong [of _ _ length])
  with b rd gz md stream obtain rest where "[(js ''/s/f'', [7])] = entries @ rest"
    by auto
  with one have "entries = [(js ''/s/f'', [7])]"
    by (cases entries) auto
  with c safe have "isUnder w (js ''out'') (join [js ''out'', js ''/s/f''])"
    by simp
  with run log show ?thesis
    unfolding w_def joined by simp
qed

lemma example_dot_dot_run:
  "uncompressArchive (runtime (js ''T'')) (js ''a'') (Some (js ''out''))
     \<lparr>root = Dir [(js ''a'',
         File ([31, 139] @ [13, 0, 0, 0] @ [123, 34, 102, 105, 108, 101, 115, 34, 58, 91, 49, 93, 125] @
               [4, 0, 0, 0, 1, 0, 0, 0, 46, 46, 47, 120, 7]))],
      cwd = [], changes = []\<rparr> =
   (\<lparr>root = Dir [(js ''a'',
         File ([31, 139] @ [13, 0, 0, 0] @ [123, 34, 102, 105, 108, 101, 115, 34, 58, 91, 49, 93, 125] @
               [4, 0, 0, 0, 1, 0, 0, 0, 46, 46, 47, 120, 7])),
        (js ''out'', Dir []),
        (js ''x'', File [7])],
      cwd = [],
      changes = [Mkdir (js ''out''), WriteFile (js ''x'') [7]]\<rparr>,
    Inr \<lparr>reportedFiles = 1, reportedSize = 1\<rparr>)"
  by (simp add: uncompressArchive_def extractFiles.simps runtime_def eval_fs eval_container
      eval_text eval_parse is_digit_def js_def)

text \<open>
  Claim C3 as stated fails: an archive whose only entry has the path \<^verbatim>\<open>../x\<close>, unpacked
  into \<^verbatim>\<open>out\<close>, writes the file \<^verbatim>\<open>x\<close> beside the output directory, not under it.
\<close>

theorem dot_dot_leaves_outputDir:
  "writes (changes (fst (uncompressArchive (runtime (js ''T'')) (js ''a'') (Some (js ''out''))
     \<lparr>root = Dir [(js ''a'',
         File ([31, 139] @ [13, 0, 0, 0] @ [123, 34, 102, 105, 108, 101, 115, 34, 58, 91, 49, 93, 125] @
               [4, 0, 0, 0, 1, 0, 0, 0, 46, 46, 47, 120, 7]))],
      cwd = [], changes = []\<rparr>))) = [(js ''x'', [7])] \<and>
   lookup (root (fst (uncompressArchive (runtime (js ''T'')) (js ''a'') (Some (js ''out''))
     \<lparr>root = Dir [(js ''a'',
         File ([31, 139] @ [13, 0, 0, 0] @ [123, 34, 102, 105, 108, 101, 115, 34, 58, 91, 49, 93, 125] @
               [4, 0, 0, 0, 1, 0, 0, 0, 46, 46, 47, 120, 7]))],
      cwd = [], changes = []\<rparr>))) [js ''x''] = Some (File [7]) \<and>
   \<not> isUnder \<lparr>root = Dir [(js ''a'',
         File ([31, 139] @ [13, 0, 0, 0] @ [123, 34, 102, 105, 108, 101, 115, 34, 58, 91, 49, 93, 125] @
               [4, 0, 0, 0, 1, 0, 0, 0, 46, 46, 47, 120, 7]))],
      cwd = [], changes = []\<rparr> (js ''out'') (js ''x'')"
  unfolding example_dot_dot_run by (simp add: isUnder_def eval_fs js_def)

end
